theory Spec2Isabelle
  imports Main
begin

section \<open>Strings\<close>

text \<open>
  A JavaScript string is a sequence of UTF-16 code units. The program never computes with
  a code unit, it only compares them, so a code unit is a natural number (every string of
  the program is a list of numbers below 65536; the theorems hold for every list).
  \<open>js\<close> reads an ASCII literal as such a string.
\<close>

type_synonym jschar = nat
type_synonym jsstring = "jschar list"

definition js :: "string \<Rightarrow> jsstring" where
  "js = map of_char"

text \<open>An argument that may be \<open>undefined\<close>, \<open>null\<close> or a string.\<close>

datatype arg = Undefined | Null | Text jsstring

text \<open>\<open>!x\<close> for such an argument: \<open>undefined\<close>, \<open>null\<close> and the empty string are falsy.\<close>

fun falsy :: "arg \<Rightarrow> bool" where
  "falsy Undefined = True"
| "falsy Null = True"
| "falsy (Text s) = (s = [])"

text \<open>\<open>s.startsWith(p)\<close>, \<open>s.endsWith(p)\<close> and \<open>s.split(c)\<close> for a one-character separator.\<close>

definition startsWith :: "jsstring \<Rightarrow> jsstring \<Rightarrow> bool" where
  "startsWith s p = (take (length p) s = p)"

definition endsWith :: "jsstring \<Rightarrow> jsstring \<Rightarrow> bool" where
  "endsWith s p = (length p \<le> length s \<and> drop (length s - length p) s = p)"

fun split_on :: "jschar \<Rightarrow> jsstring \<Rightarrow> jsstring list" where
  "split_on c [] = [[]]"
| "split_on c (x # xs) =
     (if x = c then [] # split_on c xs
      else (case split_on c xs of [] \<Rightarrow> [[x]] | w # ws \<Rightarrow> (x # w) # ws))"

section \<open>Regular expressions\<close>

text \<open>
  The line terminators (which \<open>.\<close> does not match and at which \<open>^\<close> and \<open>$\<close> match
  under the \<open>m\<close> flag) and the white space of \<open>\s\<close>, as ECMAScript defines them.
\<close>

definition is_lt :: "jschar \<Rightarrow> bool" where
  "is_lt c = (c = 0x0A \<or> c = 0x0D \<or> c = 0x2028 \<or> c = 0x2029)"

definition is_ws :: "jschar \<Rightarrow> bool" where
  "is_ws c = (c = 0x09 \<or> c = 0x0A \<or> c = 0x0B \<or> c = 0x0C \<or> c = 0x0D \<or> c = 0x20
     \<or> c = 0xA0 \<or> c = 0x1680 \<or> (0x2000 \<le> c \<and> c \<le> 0x200A) \<or> c = 0x2028 \<or> c = 0x2029
     \<or> c = 0x202F \<or> c = 0x205F \<or> c = 0x3000 \<or> c = 0xFEFF)"

definition is_digit :: "jschar \<Rightarrow> bool" where
  "is_digit c = (0x30 \<le> c \<and> c \<le> 0x39)"

definition is_word :: "jschar \<Rightarrow> bool" where
  "is_word c = ((0x41 \<le> c \<and> c \<le> 0x5A) \<or> (0x61 \<le> c \<and> c \<le> 0x7A) \<or> is_digit c \<or> c = 0x5F)"

text \<open>
  A set of code units: one code unit, one of a list (\<open>[abc]\<close>), \<open>\s\<close>, \<open>\d\<close>, \<open>\w\<close>,
  \<open>.\<close>, a complement (\<open>[^...]\<close>, \<open>\S\<close>) and a union.
\<close>

datatype cc = Ch jschar | OneOf jsstring | Ws | Digit | Word | Dot | Neg cc | Or cc cc

fun in_cc :: "cc \<Rightarrow> jschar \<Rightarrow> bool" where
  "in_cc (Ch a) c = (c = a)"
| "in_cc (OneOf as) c = (c \<in> set as)"
| "in_cc Ws c = is_ws c"
| "in_cc Digit c = is_digit c"
| "in_cc Word c = is_word c"
| "in_cc Dot c = (\<not> is_lt c)"
| "in_cc (Neg k) c = (\<not> in_cc k c)"
| "in_cc (Or k l) c = (in_cc k c \<or> in_cc l c)"

text \<open>
  The regular expressions of the program: a single code unit of a set, a literal text, a
  quantified single code unit (greedy or lazy, with its bounds), the assertions \<open>^\<close> and
  \<open>$\<close>, a capture group, an alternative and a sequence.
\<close>

datatype re =
    C cc
  | Lit jsstring
  | Rep bool nat "nat option" cc
  | Bol
  | Eol
  | Grp nat re
  | Alt re re
  | Cat "re list"

abbreviation Opt :: "cc \<Rightarrow> re" where "Opt k \<equiv> Rep True 0 (Some (Suc 0)) k"
abbreviation Star :: "cc \<Rightarrow> re" where "Star k \<equiv> Rep True 0 None k"
abbreviation Plus :: "cc \<Rightarrow> re" where "Plus k \<equiv> Rep True (Suc 0) None k"
abbreviation PlusLazy :: "cc \<Rightarrow> re" where "PlusLazy k \<equiv> Rep False (Suc 0) None k"

text \<open>
  The state of a match attempt: the code unit before the current position (none at the
  start of the input), the input from the current position on, and the captures so far
  (the latest first).
\<close>

type_synonym mstate = "jschar option \<times> jsstring \<times> (nat \<times> jsstring) list"

text \<open>
  \<open>run m r st\<close> is the backtracking matcher: every way \<open>r\<close> matches at \<open>st\<close>, in the order
  in which the engine tries them, so that the head is the match the engine returns.
  \<open>m\<close> is the multiline flag. A greedy quantifier tries the longest run first, a lazy one
  the shortest.
\<close>

fun run :: "bool \<Rightarrow> re \<Rightarrow> mstate \<Rightarrow> mstate list" where
  "run m (C k) (p, r, g) =
     (case r of [] \<Rightarrow> [] | c # cs \<Rightarrow> if in_cc k c then [(Some c, cs, g)] else [])"
| "run m (Lit w) (p, r, g) =
     (if w = [] then [(p, r, g)]
      else if take (length w) r = w then [(Some (last w), drop (length w) r, g)] else [])"
| "run m (Rep greedy lo hi k) (p, r, g) =
     (let n = length (takeWhile (in_cc k) r);
          n' = (case hi of None \<Rightarrow> n | Some h \<Rightarrow> min h n);
          ks = (if greedy then rev [lo..<Suc n'] else [lo..<Suc n'])
      in map (\<lambda>j. (if j = 0 then p else Some (r ! (j - 1)), drop j r, g)) ks)"
| "run m Bol (p, r, g) =
     (case p of None \<Rightarrow> [(p, r, g)] | Some c \<Rightarrow> if m \<and> is_lt c then [(p, r, g)] else [])"
| "run m Eol (p, r, g) =
     (case r of [] \<Rightarrow> [(p, r, g)] | c # cs \<Rightarrow> if m \<and> is_lt c then [(p, r, g)] else [])"
| "run m (Grp n x) (p, r, g) =
     map (\<lambda>(p', r', g'). (p', r', (n, take (length r - length r') r) # g')) (run m x (p, r, g))"
| "run m (Alt x y) st = run m x st @ run m y st"
| "run m (Cat []) st = [st]"
| "run m (Cat (x # xs)) st = concat (map (run m (Cat xs)) (run m x st))"

text \<open>
  A match as \<open>exec\<close> reports it: its index, the matched text, the captures, and the state
  after it (from which a global search goes on).
\<close>

record rmatch =
  index :: nat
  matched :: jsstring
  groups :: "(nat \<times> jsstring) list"
  after :: "jschar option \<times> jsstring"

definition group :: "rmatch \<Rightarrow> nat \<Rightarrow> jsstring option" where
  "group x n = map_of (groups x) n"

text \<open>
  \<open>search m r i p s\<close> looks for the leftmost match in \<open>s\<close>, which begins at index \<open>i\<close> of
  the whole input after the code unit \<open>p\<close>: one attempt at each position, the end of the
  input included.
\<close>

definition attempt :: "bool \<Rightarrow> re \<Rightarrow> nat \<Rightarrow> jschar option \<Rightarrow> jsstring \<Rightarrow> rmatch option" where
  "attempt m r i p s =
     (case run m r (p, s, []) of
        [] \<Rightarrow> None
      | (p', s', g') # _ \<Rightarrow>
          Some \<lparr>index = i, matched = take (length s - length s') s, groups = g', after = (p', s')\<rparr>)"

fun search :: "bool \<Rightarrow> re \<Rightarrow> nat \<Rightarrow> jschar option \<Rightarrow> jsstring \<Rightarrow> rmatch option" where
  "search m r i p [] = attempt m r i p []"
| "search m r i p (c # cs) =
     (case attempt m r i p (c # cs) of
        Some x \<Rightarrow> Some x
      | None \<Rightarrow> search m r (Suc i) (Some c) cs)"

text \<open>\<open>r.exec(s)\<close>, \<open>s.match(r)\<close> and \<open>r.test(s)\<close> for a regular expression without the \<open>g\<close> flag.\<close>

definition exec :: "bool \<Rightarrow> re \<Rightarrow> jsstring \<Rightarrow> rmatch option" where
  "exec m r s = search m r 0 None s"

definition test :: "bool \<Rightarrow> re \<Rightarrow> jsstring \<Rightarrow> bool" where
  "test m r s = (exec m r s \<noteq> None)"

subsection \<open>What a match consumes\<close>

text \<open>The code unit before the position reached from \<open>p\<close> by reading \<open>w\<close>.\<close>

definition cursor_after :: "jschar option \<Rightarrow> jsstring \<Rightarrow> jschar option" where
  "cursor_after p w = (if w = [] then p else Some (last w))"

lemma cursor_after_Nil [simp]: "cursor_after p [] = p"
  by (simp add: cursor_after_def)

lemma cursor_after_append [simp]: "cursor_after (cursor_after p u) v = cursor_after p (u @ v)"
  by (simp add: cursor_after_def)

lemma last_take_nth: "0 < j \<Longrightarrow> j \<le> length r \<Longrightarrow> last (take j r) = r ! (j - 1)"
proof -
  assume a: "0 < j" "j \<le> length r"
  then have "take j r \<noteq> []" by auto
  then have "last (take j r) = take j r ! (length (take j r) - 1)" by (rule last_conv_nth)
  also have "\<dots> = r ! (j - 1)" using a by (simp add: min_def)
  finally show ?thesis .
qed

lemma run_consumes:
  "(p', r', g') \<in> set (run m x (p, r, g)) \<Longrightarrow> \<exists>w. r = w @ r' \<and> p' = cursor_after p w"
proof (induction m x "(p, r, g)" arbitrary: p r g p' r' g' rule: run.induct)
  case (1 m k p r g)
  then show ?case proof -
    from 1 obtain c where "r = c # r'" "p' = Some c"
      by (cases r) (simp_all split: if_splits)
    then have "r = [c] @ r' \<and> p' = cursor_after p [c]" by (simp add: cursor_after_def)
    then show ?thesis by blast
  qed
next
  case (2 m w p r g)
  then show ?case proof (cases "w = []")
    case True
    with 2 show ?thesis by auto
  next
    case False
    with 2 have e: "take (length w) r = w" "r' = drop (length w) r" "p' = Some (last w)"
      by (auto split: if_splits)
    have "r = w @ r'" using e append_take_drop_id[of "length w" r] by simp
    then show ?thesis using e False by (auto simp: cursor_after_def)
  qed
next
  case (3 m greedy lo hi k p r g)
  then show ?case proof -
    define n where "n = length (takeWhile (in_cc k) r)"
    define n' where "n' = (case hi of None \<Rightarrow> n | Some h \<Rightarrow> min h n)"
    have n': "n' \<le> n" by (simp add: n'_def split: option.splits)
    have "set (if greedy then rev [lo..<Suc n'] else [lo..<Suc n']) = {lo..<Suc n'}"
      by (simp del: upt_Suc)
    with 3 have "(p', r', g') \<in> (\<lambda>j. (if j = 0 then p else Some (r ! (j - 1)), drop j r, g)) ` {lo..<Suc n'}"
      by (simp only: run.simps Let_def set_map n_def[symmetric] n'_def[symmetric])
    then obtain j where j0: "j < Suc n'" and j1: "r' = drop j r"
       "p' = (if j = 0 then p else Some (r ! (j - 1)))"
      by auto
    have j: "j \<le> length (takeWhile (in_cc k) r)" "r' = drop j r"
       "p' = (if j = 0 then p else Some (r ! (j - 1)))"
      using j0 j1 n' by (simp_all add: n_def)
    have "j \<le> length r" using j(1) length_takeWhile_le[of "in_cc k" r] by linarith
    then have "r = take j r @ r' \<and> p' = cursor_after p (take j r)"
      using j by (auto simp: cursor_after_def last_take_nth)
    then show ?thesis by blast
  qed
next
  case (4 m p r g)
  then show ?case by (auto split: option.splits if_splits)
next
  case (5 m p r g)
  then show ?case by (auto split: list.splits if_splits)
next
  case (6 m n x p r g)
  then show ?case by auto
next
  case (7 m x y p r g)
  then show ?case by auto
next
  case (8 m p r g)
  then show ?case by auto
next
  case (9 m x xs p r g)
  from 9(3) obtain p1 r1 g1 where a: "(p1, r1, g1) \<in> set (run m x (p, r, g))"
     and b: "(p', r', g') \<in> set (run m (Cat xs) (p1, r1, g1))"
    by auto
  from 9(1)[OF a] obtain u where u: "r = u @ r1" "p1 = cursor_after p u" by blast
  from 9(2)[OF a b] obtain v where v: "r1 = v @ r'" "p' = cursor_after p1 v" by blast
  have "r = (u @ v) @ r' \<and> p' = cursor_after p (u @ v)" using u v by simp
  then show ?case by blast
qed

subsection \<open>The matches of each construct\<close>

lemma in_run_C:
  "(p', r', g') \<in> set (run m (C k) (p, r, g)) \<longleftrightarrow> (\<exists>c. r = c # r' \<and> in_cc k c \<and> p' = Some c \<and> g' = g)"
  by (cases r) auto

lemma in_run_Lit:
  "(p', r', g') \<in> set (run m (Lit w) (p, r, g)) \<longleftrightarrow> r = w @ r' \<and> p' = cursor_after p w \<and> g' = g"
proof (cases "w = []")
  case True
  then show ?thesis by auto
next
  case False
  have "take (length w) r = w \<and> r' = drop (length w) r \<longleftrightarrow> r = w @ r'"
    by (metis append_eq_conv_conj)
  then show ?thesis using False by (auto simp: cursor_after_def)
qed

lemma takeWhile_prefix_length:
  "r = u @ r' \<Longrightarrow> \<forall>c \<in> set u. P c \<Longrightarrow> length u \<le> length (takeWhile P r)"
  by (simp add: takeWhile_append2)

lemma take_takeWhile_all:
  "j \<le> length (takeWhile P r) \<Longrightarrow> \<forall>c \<in> set (take j r). P c"
proof
  fix c assume j: "j \<le> length (takeWhile P r)" and c: "c \<in> set (take j r)"
  have "take j r = take j (takeWhile P r)"
    using j by (metis append_eq_conv_conj takeWhile_dropWhile_id take_all_iff take_append min.absorb2 take_take order_refl diff_is_0_eq' take_0 append_Nil2 length_take)
  then have "c \<in> set (takeWhile P r)" using c by (metis in_set_takeD)
  then show "P c" by (rule set_takeWhileD[THEN conjunct2])
qed

lemma in_run_Rep:
  "(p', r', g') \<in> set (run m (Rep gr lo hi k) (p, r, g)) \<longleftrightarrow>
     (\<exists>u. r = u @ r' \<and> (\<forall>c \<in> set u. in_cc k c) \<and> lo \<le> length u
        \<and> (case hi of None \<Rightarrow> True | Some h \<Rightarrow> length u \<le> h)
        \<and> p' = cursor_after p u \<and> g' = g)"
proof -
  define n where "n = length (takeWhile (in_cc k) r)"
  define n' where "n' = (case hi of None \<Rightarrow> n | Some h \<Rightarrow> min h n)"
  have nr: "n \<le> length r" unfolding n_def by (rule length_takeWhile_le)
  have ks: "set (if gr then rev [lo..<Suc n'] else [lo..<Suc n']) = {lo..<Suc n'}"
    by (simp del: upt_Suc)
  have mem: "(p', r', g') \<in> set (run m (Rep gr lo hi k) (p, r, g)) \<longleftrightarrow>
      (p', r', g') \<in> (\<lambda>j. (if j = 0 then p else Some (r ! (j - 1)), drop j r, g)) ` {lo..<Suc n'}"
    using ks by (simp only: run.simps Let_def set_map n_def[symmetric] n'_def[symmetric])
  show ?thesis
  proof
    assume "(p', r', g') \<in> set (run m (Rep gr lo hi k) (p, r, g))"
    with mem obtain j where j: "lo \<le> j" "j < Suc n'" "r' = drop j r" "g' = g"
      "p' = (if j = 0 then p else Some (r ! (j - 1)))" by auto
    have jn: "j \<le> n" using j(2) by (auto simp: n'_def split: option.splits)
    then have jr: "j \<le> length r" using nr by simp
    have a: "r = take j r @ r'" using j(3) by simp
    have b: "\<forall>c \<in> set (take j r). in_cc k c" using jn unfolding n_def by (rule take_takeWhile_all)
    have c: "lo \<le> length (take j r)" using j(1) jr by simp
    have d: "(case hi of None \<Rightarrow> True | Some h \<Rightarrow> length (take j r) \<le> h)"
      using j(2) jr by (auto simp: n'_def split: option.splits)
    have e: "p' = cursor_after p (take j r)" using j(5) jr by (auto simp: cursor_after_def last_take_nth)
    show "\<exists>u. r = u @ r' \<and> (\<forall>c \<in> set u. in_cc k c) \<and> lo \<le> length u
        \<and> (case hi of None \<Rightarrow> True | Some h \<Rightarrow> length u \<le> h) \<and> p' = cursor_after p u \<and> g' = g"
      using a b c d e j(4) by blast
  next
    assume "\<exists>u. r = u @ r' \<and> (\<forall>c \<in> set u. in_cc k c) \<and> lo \<le> length u
        \<and> (case hi of None \<Rightarrow> True | Some h \<Rightarrow> length u \<le> h) \<and> p' = cursor_after p u \<and> g' = g"
    then obtain u where u: "r = u @ r'" "\<forall>c \<in> set u. in_cc k c" "lo \<le> length u"
      "(case hi of None \<Rightarrow> True | Some h \<Rightarrow> length u \<le> h)" "p' = cursor_after p u" "g' = g" by blast
    have un: "length u \<le> n" unfolding n_def using u(1,2) by (rule takeWhile_prefix_length)
    have un': "length u < Suc n'" using un u(4) by (auto simp: n'_def split: option.splits)
    have dr: "r' = drop (length u) r" using u(1) by simp
    have pp: "p' = (if length u = 0 then p else Some (r ! (length u - 1)))"
    proof (cases "u = []")
      case True
      then show ?thesis using u(5) by simp
    next
      case False
      then have "last u = r ! (length u - 1)" using u(1)
        by (simp add: last_conv_nth nth_append)
      then show ?thesis using False u(5) by (simp add: cursor_after_def)
    qed
    have "(p', r', g') = (\<lambda>j. (if j = 0 then p else Some (r ! (j - 1)), drop j r, g)) (length u)"
      using dr pp u(6) by simp
    moreover have "length u \<in> {lo..<Suc n'}" using u(3) un' by simp
    ultimately show "(p', r', g') \<in> set (run m (Rep gr lo hi k) (p, r, g))"
      unfolding mem by (rule image_eqI)
  qed
qed

lemma in_run_Bol:
  "(p', r', g') \<in> set (run m Bol (p, r, g)) \<longleftrightarrow>
     p' = p \<and> r' = r \<and> g' = g \<and> (case p of None \<Rightarrow> True | Some c \<Rightarrow> m \<and> is_lt c)"
  by (auto split: option.splits)

lemma in_run_Eol:
  "(p', r', g') \<in> set (run m Eol (p, r, g)) \<longleftrightarrow>
     p' = p \<and> r' = r \<and> g' = g \<and> (case r of [] \<Rightarrow> True | c # cs \<Rightarrow> m \<and> is_lt c)"
  by (auto split: list.splits)

lemma in_run_Grp:
  "(p', r', g') \<in> set (run m (Grp n x) (p, r, g)) \<longleftrightarrow>
     (\<exists>g1. (p', r', g1) \<in> set (run m x (p, r, g)) \<and> g' = (n, take (length r - length r') r) # g1)"
  by (force simp: image_iff)

lemma in_run_Alt:
  "st' \<in> set (run m (Alt x y) st) \<longleftrightarrow> st' \<in> set (run m x st) \<or> st' \<in> set (run m y st)"
  by simp

lemma in_run_Cat_Nil: "st' \<in> set (run m (Cat []) st) \<longleftrightarrow> st' = st"
  by auto

lemma in_run_Cat_Cons:
  "st' \<in> set (run m (Cat (x # xs)) (p, r, g)) \<longleftrightarrow>
     (\<exists>p1 r1 g1. (p1, r1, g1) \<in> set (run m x (p, r, g)) \<and> st' \<in> set (run m (Cat xs) (p1, r1, g1)))"
  by auto

lemmas in_run = in_run_C in_run_Lit in_run_Rep in_run_Bol in_run_Eol in_run_Grp in_run_Alt
  in_run_Cat_Nil in_run_Cat_Cons


text \<open>How a match is built up.\<close>

lemma run_Cat_ConsI:
  "(p1, r1, g1) \<in> set (run m x (p, r, g)) \<Longrightarrow> st' \<in> set (run m (Cat xs) (p1, r1, g1))
     \<Longrightarrow> st' \<in> set (run m (Cat (x # xs)) (p, r, g))"
  unfolding in_run_Cat_Cons by blast

lemma run_RepI:
  assumes "\<forall>c \<in> set u. in_cc k c" "lo \<le> length u" "case hi of None \<Rightarrow> True | Some h \<Rightarrow> length u \<le> h"
  shows "(cursor_after p u, r', g) \<in> set (run m (Rep gr lo hi k) (p, u @ r', g))"
  unfolding in_run_Rep using assms by blast

lemma run_LitI: "(cursor_after p w, r', g) \<in> set (run m (Lit w) (p, w @ r', g))"
  unfolding in_run_Lit by simp

lemma run_CI: "in_cc k c \<Longrightarrow> (Some c, r', g) \<in> set (run m (C k) (p, c # r', g))"
  unfolding in_run_C by simp

text \<open>
  From here on the matcher is reasoned about through these characterisations; its
  equations are unfolded only to evaluate it on a given input.
\<close>

declare run.simps [simp del]

subsection \<open>The leftmost match\<close>

lemma attempt_Some:
  assumes "attempt m r i p s = Some x"
  shows "index x = i" and "s = matched x @ snd (after x)"
    and "fst (after x) = cursor_after p (matched x)"
    and "run m r (p, s, []) \<noteq> []"
    and "hd (run m r (p, s, [])) = (fst (after x), snd (after x), groups x)"
proof -
  from assms obtain p' s' g' rest where run: "run m r (p, s, []) = (p', s', g') # rest"
    and x: "x = \<lparr>index = i, matched = take (length s - length s') s, groups = g', after = (p', s')\<rparr>"
    by (auto simp: attempt_def split: list.splits)
  from run have "(p', s', g') \<in> set (run m r (p, s, []))" by simp
  from run_consumes[OF this] obtain w where w: "s = w @ s'" "p' = cursor_after p w" by blast
  then have tk: "take (length s - length s') s = w" by simp
  show "index x = i" using x by simp
  show "s = matched x @ snd (after x)" using x w tk by simp
  show "fst (after x) = cursor_after p (matched x)" using x w tk by simp
  show "run m r (p, s, []) \<noteq> []" using run by simp
  show "hd (run m r (p, s, [])) = (fst (after x), snd (after x), groups x)" using run x by simp
qed

lemma attempt_None: "attempt m r i p s = None \<longleftrightarrow> run m r (p, s, []) = []"
  by (auto simp: attempt_def split: list.splits)

text \<open>
  The search returns the leftmost match: it is the head of the matcher's answers at its
  index, and the matcher has no answer at any earlier position.
\<close>

lemma search_Some:
  "search m r i p s = Some x \<Longrightarrow>
     \<exists>u. index x = i + length u \<and> s = u @ matched x @ snd (after x)
       \<and> attempt m r (i + length u) (cursor_after p u) (matched x @ snd (after x)) = Some x
       \<and> (\<forall>k < length u. run m r (cursor_after p (take k u), drop k s, []) = [])"
proof (induction s arbitrary: i p)
  case Nil
  then have a: "attempt m r i p [] = Some x" by simp
  from attempt_Some(2)[OF a] have "[] = matched x @ snd (after x)" .
  then show ?case using a attempt_Some(1)[OF a] by (intro exI[of _ "[]"]) simp
next
  case (Cons c cs)
  show ?case
  proof (cases "attempt m r i p (c # cs)")
    case (Some y)
    with Cons.prems have a: "attempt m r i p (c # cs) = Some x" by simp
    from attempt_Some(2)[OF a] have "c # cs = matched x @ snd (after x)" .
    then show ?thesis using a attempt_Some(1)[OF a] by (intro exI[of _ "[]"]) simp
  next
    case None
    with Cons.prems have "search m r (Suc i) (Some c) cs = Some x" by simp
    from Cons.IH[OF this] obtain u where u: "index x = Suc i + length u"
      "cs = u @ matched x @ snd (after x)"
      "attempt m r (Suc i + length u) (cursor_after (Some c) u) (matched x @ snd (after x)) = Some x"
      "\<forall>k < length u. run m r (cursor_after (Some c) (take k u), drop k cs, []) = []"
      by blast
    have ca: "\<And>w. cursor_after (Some c) w = cursor_after p (c # w)"
      by (simp add: cursor_after_def)
    have "\<forall>k < length (c # u). run m r (cursor_after p (take k (c # u)), drop k (c # cs), []) = []"
    proof (intro allI impI)
      fix k assume k: "k < length (c # u)"
      show "run m r (cursor_after p (take k (c # u)), drop k (c # cs), []) = []"
      proof (cases k)
        case 0
        then show ?thesis using None by (simp add: attempt_None)
      next
        case (Suc k')
        then have "k' < length u" using k by simp
        with u(4) have "run m r (cursor_after (Some c) (take k' u), drop k' cs, []) = []" by blast
        then show ?thesis using Suc by (simp add: ca)
      qed
    qed
    then show ?thesis using u(1,2,3)
      by (intro exI[of _ "c # u"]) (simp add: ca)
  qed
qed

lemma search_None:
  "search m r i p s = None \<longleftrightarrow> (\<forall>k \<le> length s. run m r (cursor_after p (take k s), drop k s, []) = [])"
proof (induction s arbitrary: i p)
  case Nil
  then show ?case by (simp add: attempt_None)
next
  case (Cons c cs)
  have ca: "\<And>w. cursor_after (Some c) w = cursor_after p (c # w)"
    by (simp add: cursor_after_def)
  show ?case
  proof
    assume "search m r i p (c # cs) = None"
    then have a: "attempt m r i p (c # cs) = None" and b: "search m r (Suc i) (Some c) cs = None"
      by (auto split: option.splits)
    from b Cons.IH have c: "\<forall>k \<le> length cs. run m r (cursor_after (Some c) (take k cs), drop k cs, []) = []"
      by blast
    show "\<forall>k \<le> length (c # cs). run m r (cursor_after p (take k (c # cs)), drop k (c # cs), []) = []"
    proof (intro allI impI)
      fix k assume k: "k \<le> length (c # cs)"
      show "run m r (cursor_after p (take k (c # cs)), drop k (c # cs), []) = []"
      proof (cases k)
        case 0
        then show ?thesis using a by (simp add: attempt_None)
      next
        case (Suc k')
        then have "k' \<le> length cs" using k by simp
        with c have "run m r (cursor_after (Some c) (take k' cs), drop k' cs, []) = []" by blast
        then show ?thesis using Suc by (simp add: ca)
      qed
    qed
  next
    assume h: "\<forall>k \<le> length (c # cs). run m r (cursor_after p (take k (c # cs)), drop k (c # cs), []) = []"
    from h[rule_format, of 0] have a: "attempt m r i p (c # cs) = None" by (simp add: attempt_None)
    have "\<forall>k \<le> length cs. run m r (cursor_after (Some c) (take k cs), drop k cs, []) = []"
    proof (intro allI impI)
      fix k assume "k \<le> length cs"
      then have "Suc k \<le> length (c # cs)" by simp
      from h[rule_format, OF this] show "run m r (cursor_after (Some c) (take k cs), drop k cs, []) = []"
        by (simp add: ca)
    qed
    with Cons.IH have "search m r (Suc i) (Some c) cs = None" by blast
    with a show "search m r i p (c # cs) = None" by simp
  qed
qed

lemma search_shorter:
  assumes "search m r i p s = Some x"
  shows "length (snd (after x)) \<le> length s"
    and "matched x \<noteq> [] \<Longrightarrow> length (snd (after x)) < length s"
proof -
  from search_Some[OF assms] obtain u where "s = u @ matched x @ snd (after x)" by blast
  then have "length s = length u + length (matched x) + length (snd (after x))"
    by (metis length_append add.assoc)
  then show "length (snd (after x)) \<le> length s"
    and "matched x \<noteq> [] \<Longrightarrow> length (snd (after x)) < length s" by simp_all
qed

subsection \<open>Global replacement and splitting\<close>

text \<open>
  \<open>s.replace(r, f)\<close> for a regular expression with the \<open>g\<close> flag: the text up to the next
  match is kept, the match is replaced, and the search goes on after the match; after an
  empty match it goes on one code unit later, which is kept.
\<close>

function replace_g :: "bool \<Rightarrow> re \<Rightarrow> (rmatch \<Rightarrow> jsstring) \<Rightarrow> nat \<Rightarrow> jschar option \<Rightarrow> jsstring \<Rightarrow> jsstring" where
  "replace_g m r f i p s =
     (case search m r i p s of
        None \<Rightarrow> s
      | Some x \<Rightarrow>
          take (index x - i) s @ f x @
          (if matched x = [] then
             (case snd (after x) of
                [] \<Rightarrow> []
              | c # cs \<Rightarrow> c # replace_g m r f (Suc (index x)) (Some c) cs)
           else replace_g m r f (index x + length (matched x)) (fst (after x)) (snd (after x))))"
  by pat_completeness auto
termination
proof (relation "measure (\<lambda>(m, r, f, i, p, s). length s)")
  show "wf (measure (\<lambda>(m, r, f, i, p, s). length s))" by simp
next
  fix m r f i p s x c cs
  assume "search m r i p s = Some x" "snd (after x) = c # cs"
  then show "((m, r, f, Suc (index x), Some c, cs), (m, r, f, i, p, s)) \<in> measure (\<lambda>(m, r, f, i, p, s). length s)"
    using search_shorter(1)[of m r i p s x] by simp
next
  fix m r f i p s x
  assume "search m r i p s = Some x" "matched x \<noteq> []"
  then show "((m, r, f, index x + length (matched x), fst (after x), snd (after x)), (m, r, f, i, p, s))
      \<in> measure (\<lambda>(m, r, f, i, p, s). length s)"
    using search_shorter(2)[of m r i p s x] by (simp add: case_prod_beta)
qed

declare replace_g.simps [simp del]

text \<open>
  \<open>s.split(r)\<close> for a regular expression without capture groups: at each position of a
  non-empty \<open>s\<close> the expression is tried at that position only; a match that ends where
  the current piece begins is skipped, any other match closes the piece, and the next
  piece begins at its end. \<open>acc\<close> is the current piece up to the position.
\<close>

function split_at :: "bool \<Rightarrow> re \<Rightarrow> jsstring \<Rightarrow> jschar option \<Rightarrow> jsstring \<Rightarrow> jsstring list" where
  "split_at m r acc p [] = [acc]"
| "split_at m r acc p (c # cs) =
     (case attempt m r 0 p (c # cs) of
        None \<Rightarrow> split_at m r (acc @ [c]) (Some c) cs
      | Some x \<Rightarrow>
          if matched x = [] then
            (if acc = [] then split_at m r (acc @ [c]) (Some c) cs
             else acc # split_at m r [] p (c # cs))
          else acc # split_at m r [] (fst (after x)) (snd (after x)))"
  by pat_completeness auto
termination
proof (relation "measures [\<lambda>(m, r, acc, p, s). length s, \<lambda>(m, r, acc, p, s). length acc]")
  fix m r acc p c cs x
  assume "attempt m r 0 p (c # cs) = Some x" "matched x \<noteq> []"
  then show "((m, r, [], fst (after x), snd (after x)), (m, r, acc, p, c # cs))
      \<in> measures [\<lambda>(m, r, acc, p, s). length s, \<lambda>(m, r, acc, p, s). length acc]"
    using attempt_Some(2)[of m r 0 p "c # cs" x]
    by (metis (no_types, lifting) case_prod_conv length_append length_greater_0_conv less_add_same_cancel2 measures_less)
qed auto

definition split_re :: "bool \<Rightarrow> re \<Rightarrow> jsstring \<Rightarrow> jsstring list" where
  "split_re m r s =
     (if s = [] then (if attempt m r 0 None [] = None then [[]] else [])
      else split_at m r [] None s)"


section \<open>The review utilities\<close>

abbreviation (input) LF :: jschar where "LF \<equiv> 0x0A"
abbreviation (input) QUOTE :: jschar where "QUOTE \<equiv> 0x22"
abbreviation (input) BACKSLASH :: jschar where "BACKSLASH \<equiv> 0x5C"

definition the_group :: "rmatch \<Rightarrow> nat \<Rightarrow> jsstring" where
  "the_group x n = (case group x n of Some w \<Rightarrow> w | None \<Rightarrow> [])"

definition slice :: "jsstring \<Rightarrow> nat \<Rightarrow> nat \<Rightarrow> jsstring" where
  "slice s a b = take (b - a) (drop a s)"

subsection \<open>The diff path filter\<close>

text \<open>
  \<open>ignoredRegex\<close> is \<^verbatim>\<open>^(package.json|package-lock.json|yarn.lock)$|^node_modules/\<close>:
  the names of \<open>IGNORED_FILES\<close> joined by \<open>|\<close>, their dots unescaped.
  \<open>headerRegex\<close> is \<^verbatim>\<open>/^diff --git "?a\/(.+?)"? "?b\/(.+?)"?$/gm\<close>, and
  \<open>quoteRegex\<close> is \<^verbatim>\<open>/^"|"$/g\<close>.
\<close>

definition ignoredRegex :: re where
  "ignoredRegex =
     Alt (Cat [Bol,
               Grp 1 (Alt (Cat [Lit (js ''package''), C Dot, Lit (js ''json'')])
                     (Alt (Cat [Lit (js ''package-lock''), C Dot, Lit (js ''json'')])
                          (Cat [Lit (js ''yarn''), C Dot, Lit (js ''lock'')]))),
               Eol])
         (Cat [Bol, Lit (js ''node_modules/'')])"

definition headerRegex :: re where
  "headerRegex =
     Cat [Bol, Lit (js ''diff --git ''), Opt (Ch QUOTE), Lit (js ''a/''), Grp 1 (PlusLazy Dot),
          Opt (Ch QUOTE), Lit (js '' ''), Opt (Ch QUOTE), Lit (js ''b/''), Grp 2 (PlusLazy Dot),
          Opt (Ch QUOTE), Eol]"

definition quoteRegex :: re where
  "quoteRegex = Alt (Cat [Bol, C (Ch QUOTE)]) (Cat [C (Ch QUOTE), Eol])"

lemma Cat_Bol_Lit_consumes:
  assumes "(p', r', g') \<in> set (run m (Cat (Bol # Lit w # xs)) (p, r, g))"
  shows "\<exists>v. r = w @ v @ r'"
proof -
  from assms obtain p2 r2 g2 where
    b: "(p2, r2, g2) \<in> set (run m (Lit w) (p, r, g))" and
    c: "(p', r', g') \<in> set (run m (Cat xs) (p2, r2, g2))"
    by (auto simp only: in_run_Cat_Cons in_run_Bol)
  from b have "r = w @ r2" by (simp only: in_run_Lit)
  moreover from run_consumes[OF c] obtain v where "r2 = v @ r'" by blast
  ultimately show ?thesis by blast
qed

lemma headerRegex_consumes:
  assumes "(p', r', g') \<in> set (run True headerRegex (p, r, g))"
  shows "length r' < length r"
proof -
  from Cat_Bol_Lit_consumes[OF assms[unfolded headerRegex_def]]
  obtain v where "r = js ''diff --git '' @ v @ r'" by blast
  then have "length r = length (js ''diff --git '') + length v + length r'" by simp
  then show ?thesis by (simp add: js_def)
qed

text \<open>The \<open>while\<close> loop over \<open>headerRegex.exec(diff)\<close>: every header's index and path.\<close>

function headers :: "nat \<Rightarrow> jschar option \<Rightarrow> jsstring \<Rightarrow> (nat \<times> jsstring) list" where
  "headers i p s =
     (case search True headerRegex i p s of
        None \<Rightarrow> []
      | Some x \<Rightarrow>
          (index x, replace_g False quoteRegex (\<lambda>_. []) 0 None (the_group x 2))
            # headers (index x + length (matched x)) (fst (after x)) (snd (after x)))"
  by pat_completeness auto
termination
proof (relation "measure (\<lambda>(i, p, s). length s)")
  show "wf (measure (\<lambda>(i, p, s). length s))" by simp
next
  fix i p s x
  assume s: "search True headerRegex i p s = Some x"
  from search_Some[OF s] obtain u where u: "s = u @ matched x @ snd (after x)"
    "attempt True headerRegex (i + length u) (cursor_after p u) (matched x @ snd (after x)) = Some x"
    by blast
  from attempt_Some(4,5)[OF u(2)]
  have "(fst (after x), snd (after x), groups x)
      \<in> set (run True headerRegex (cursor_after p u, matched x @ snd (after x), []))"
    by (metis hd_in_set)
  from headerRegex_consumes[OF this] have "length (snd (after x)) < length s"
    using u(1) by (metis length_append trans_less_add2)
  then show "((index x + length (matched x), fst (after x), snd (after x)), (i, p, s))
      \<in> measure (\<lambda>(i, p, s). length s)"
    by (simp add: case_prod_beta)
qed

declare headers.simps [simp del]

fun spans :: "jsstring \<Rightarrow> (nat \<times> jsstring) list \<Rightarrow> jsstring \<Rightarrow> jsstring" where
  "spans diff [] result = result"
| "spans diff ((start, path) # rest) result =
     (let stop = (case rest of [] \<Rightarrow> length diff | (nxt, _) # _ \<Rightarrow> nxt)
      in spans diff rest
           (if \<not> test False ignoredRegex path then result @ slice diff start stop else result))"

definition filterDiffByIgnoredFiles :: "arg \<Rightarrow> arg" where
  "filterDiffByIgnoredFiles d =
     (if falsy d then d
      else case d of
        Text diff \<Rightarrow>
          (let matches = headers 0 None diff in
           if matches = [] then d
           else Text (spans diff matches
                  (if 0 < fst (hd matches) then slice diff 0 (fst (hd matches)) else [])))
      | _ \<Rightarrow> d)"


subsection \<open>The pattern compiler and the line locator\<close>

text \<open>
  \<open>convertToRegexPattern\<close> replaces every match of \<^verbatim>\<open>/([.*+?^=!:${}()|[\]/-])/g\<close> by a
  backslash and the match, and then every match of \<^verbatim>\<open>/\s+/g\<close> by the three code
  units \<^verbatim>\<open>\s+\<close>.
\<close>

definition specialChars :: jsstring where
  "specialChars = js ''.*+?^=!:${}()|[]/-''"

definition escapeRegex :: re where
  "escapeRegex = Grp 1 (C (OneOf specialChars))"

definition convertToRegexPattern :: "jsstring \<Rightarrow> jsstring" where
  "convertToRegexPattern input =
     replace_g False (Plus Ws) (\<lambda>_. BACKSLASH # js ''s+'') 0 None
       (replace_g False escapeRegex (\<lambda>x. BACKSLASH # the_group x 1) 0 None input)"

text \<open>
  What stops a call: the two exceptions the utilities can raise, and \<open>Unsupported\<close>, by
  which \<open>RegExp_new\<close> marks a pattern that this development does not interpret.
\<close>

datatype stop = SyntaxError | TypeError | Unsupported

text \<open>
  \<open>new RegExp(pattern)\<close>, for the patterns made of single code units, each possibly
  followed by one of the quantifiers \<open>*\<close>, \<open>+\<close>, \<open>?\<close>, and of \<open>^\<close> and \<open>$\<close>. A code unit is
  written literally, as \<open>.\<close>, or as an escape \<open>\X\<close>: the class escapes \<open>\d \D \s \S \w \W\<close>,
  the control escapes \<open>\f \n \r \t \v\<close>, and the identity escape of any \<open>X\<close> that is not
  an ASCII letter or digit. A backslash that ends the pattern is a \<open>SyntaxError\<close>.
  The other escapes by a letter or a digit, and the characters \<open>( ) [ ] { } |\<close> and a
  quantifier that has nothing before it to repeat, are \<open>Unsupported\<close>: such patterns
  only arise when the snippet itself contains a backslash.
\<close>

definition escape_atom :: "jschar \<Rightarrow> stop + cc" where
  "escape_atom c =
     (if c = of_char CHR ''d'' then Inr Digit
      else if c = of_char CHR ''D'' then Inr (Neg Digit)
      else if c = of_char CHR ''s'' then Inr Ws
      else if c = of_char CHR ''S'' then Inr (Neg Ws)
      else if c = of_char CHR ''w'' then Inr Word
      else if c = of_char CHR ''W'' then Inr (Neg Word)
      else if c = of_char CHR ''f'' then Inr (Ch 0x0C)
      else if c = of_char CHR ''n'' then Inr (Ch 0x0A)
      else if c = of_char CHR ''r'' then Inr (Ch 0x0D)
      else if c = of_char CHR ''t'' then Inr (Ch 0x09)
      else if c = of_char CHR ''v'' then Inr (Ch 0x0B)
      else if is_word c \<and> c \<noteq> of_char CHR ''_'' then Inl Unsupported
      else Inr (Ch c))"

definition then_terms :: "re \<Rightarrow> stop + re list \<Rightarrow> stop + re list" where
  "then_terms x rest = (case rest of Inl e \<Rightarrow> Inl e | Inr xs \<Rightarrow> Inr (x # xs))"

text \<open>\<open>quantifier k s\<close>: the term for the atom \<open>k\<close> before the rest \<open>s\<close> of the pattern, and what is left of \<open>s\<close>.\<close>

definition quantifier :: "cc \<Rightarrow> jsstring \<Rightarrow> re \<times> jsstring" where
  "quantifier k s =
     (case s of
        [] \<Rightarrow> (C k, [])
      | q # s' \<Rightarrow>
          if q = of_char CHR ''*'' then (Star k, s')
          else if q = of_char CHR ''+'' then (Plus k, s')
          else if q = of_char CHR ''?'' then (Opt k, s')
          else (C k, s))"

lemma quantifier_length: "length (snd (quantifier k s)) \<le> length s"
  by (simp add: quantifier_def split: list.splits)

function terms :: "jsstring \<Rightarrow> stop + re list" where
  "terms [] = Inr []"
| "terms (c # cs) =
     (if c = BACKSLASH then
        (case cs of
           [] \<Rightarrow> Inl SyntaxError
         | e # cs' \<Rightarrow>
             (case escape_atom e of
                Inl stop \<Rightarrow> Inl stop
              | Inr k \<Rightarrow> then_terms (fst (quantifier k cs')) (terms (snd (quantifier k cs')))))
      else if c = of_char CHR ''^'' then then_terms Bol (terms cs)
      else if c = of_char CHR ''$'' then then_terms Eol (terms cs)
      else if c \<in> set (js ''*+?()[]{}|'') then Inl Unsupported
      else if c = of_char CHR ''.'' then
        then_terms (fst (quantifier Dot cs)) (terms (snd (quantifier Dot cs)))
      else then_terms (fst (quantifier (Ch c) cs)) (terms (snd (quantifier (Ch c) cs))))"
  by pat_completeness auto
termination
  by (relation "measure length") (auto simp: le_imp_less_Suc quantifier_length less_Suc_eq_le intro: le_SucI)

definition RegExp_new :: "jsstring \<Rightarrow> stop + re" where
  "RegExp_new pattern = (case terms pattern of Inl e \<Rightarrow> Inl e | Inr xs \<Rightarrow> Inr (Cat xs))"

text \<open>
  \<open>getLineNumber\<close>: \<open>-1\<close> for a falsy argument and when the pattern has no match;
  otherwise the number of lines of the text before the match plus the number of lines
  of the match, minus one.
\<close>

definition getLineNumber :: "arg \<Rightarrow> arg \<Rightarrow> stop + int" where
  "getLineNumber text searchString =
     (if falsy text \<or> falsy searchString then Inr (- 1)
      else case (text, searchString) of
        (Text t, Text s) \<Rightarrow>
          (case RegExp_new (convertToRegexPattern s) of
             Inl e \<Rightarrow> Inl e
           | Inr regex \<Rightarrow>
               (case exec False regex t of
                  None \<Rightarrow> Inr (- 1)
                | Some match \<Rightarrow>
                    (let textBeforeMatch = take (index match) t;
                         startLine = length (split_on LF textBeforeMatch);
                         matchedLineCount = length (split_on LF (matched match))
                     in Inr (int startLine + int matchedLineCount - 1))))
      | _ \<Rightarrow> Inr (- 1))"


subsection \<open>The nested-key lookup\<close>

text \<open>
  The reference mapping is a parsed translation file: a tree whose leaves are strings.
  A node lists its own properties in the order in which JavaScript enumerates them; the
  first entry of a key is the property.
\<close>

datatype tree = Leaf jsstring | Node "(jsstring \<times> tree) list"

text \<open>
  The values the lookup can reach. \<open>obj[key]\<close> and \<open>key in obj\<close> also see what every
  object inherits from \<open>Object.prototype\<close>: its functions, and the accessor \<open>__proto__\<close>,
  which yields \<open>Object.prototype\<close> itself and, on \<open>Object.prototype\<close>, \<open>null\<close>.
\<close>

datatype jsval = Val tree | ObjectPrototype | Function | NullVal

definition inherited_functions :: "jsstring list" where
  "inherited_functions =
     [js ''constructor'', js ''__defineGetter__'', js ''__defineSetter__'', js ''hasOwnProperty'',
      js ''__lookupGetter__'', js ''__lookupSetter__'', js ''isPrototypeOf'',
      js ''propertyIsEnumerable'', js ''toString'', js ''valueOf'', js ''toLocaleString'']"

text \<open>\<open>v[k]\<close> for an object \<open>v\<close>; \<open>None\<close> is \<open>undefined\<close>.\<close>

definition prototype_get :: "jsval \<Rightarrow> jsstring \<Rightarrow> jsval option" where
  "prototype_get proto k =
     (if k = js ''__proto__'' then Some proto
      else if k \<in> set inherited_functions then Some Function
      else None)"

fun get :: "jsval \<Rightarrow> jsstring \<Rightarrow> jsval option" where
  "get (Val (Node kvs)) k =
     (case map_of kvs k of Some t \<Rightarrow> Some (Val t) | None \<Rightarrow> prototype_get ObjectPrototype k)"
| "get ObjectPrototype k = prototype_get NullVal k"
| "get _ k = None"

text \<open>\<open>current && typeof current === 'object'\<close>\<close>

fun is_object :: "jsval \<Rightarrow> bool" where
  "is_object (Val (Node kvs)) = True"
| "is_object ObjectPrototype = True"
| "is_object _ = False"

text \<open>
  \<open>JSON.stringify\<close>: a string is quoted, with the escapes of JSON (a lone surrogate
  is escaped too); the members of an object are joined by commas.
\<close>

definition hex_digit :: "nat \<Rightarrow> jschar" where
  "hex_digit n = (if n < 10 then 0x30 + n else 0x57 + n)"

definition unicode_escape :: "jschar \<Rightarrow> jsstring" where
  "unicode_escape c =
     BACKSLASH # of_char CHR ''u'' #
       [hex_digit (c div 4096 mod 16), hex_digit (c div 256 mod 16),
        hex_digit (c div 16 mod 16), hex_digit (c mod 16)]"

definition is_high_surrogate :: "jschar \<Rightarrow> bool" where
  "is_high_surrogate c = (0xD800 \<le> c \<and> c \<le> 0xDBFF)"

definition is_low_surrogate :: "jschar \<Rightarrow> bool" where
  "is_low_surrogate c = (0xDC00 \<le> c \<and> c \<le> 0xDFFF)"

definition quote_unit :: "jschar \<Rightarrow> jsstring" where
  "quote_unit c =
     (if c = 0x08 then BACKSLASH # js ''b''
      else if c = 0x09 then BACKSLASH # js ''t''
      else if c = 0x0A then BACKSLASH # js ''n''
      else if c = 0x0C then BACKSLASH # js ''f''
      else if c = 0x0D then BACKSLASH # js ''r''
      else if c = QUOTE then [BACKSLASH, QUOTE]
      else if c = BACKSLASH then [BACKSLASH, BACKSLASH]
      else if c < 0x20 \<or> is_high_surrogate c \<or> is_low_surrogate c then unicode_escape c
      else [c])"

fun quote_units :: "jsstring \<Rightarrow> jsstring" where
  "quote_units [] = []"
| "quote_units [c] = quote_unit c"
| "quote_units (c # d # s) =
     (if is_high_surrogate c \<and> is_low_surrogate d then c # d # quote_units s
      else quote_unit c @ quote_units (d # s))"

definition QuoteJSONString :: "jsstring \<Rightarrow> jsstring" where
  "QuoteJSONString s = QUOTE # quote_units s @ [QUOTE]"

fun stringify_tree :: "tree \<Rightarrow> jsstring"
  and stringify_members :: "(jsstring \<times> tree) list \<Rightarrow> jsstring" where
  "stringify_tree (Leaf s) = QuoteJSONString s"
| "stringify_tree (Node kvs) = js ''{'' @ stringify_members kvs @ js ''}''"
| "stringify_members [] = []"
| "stringify_members ((k, v) # kvs) =
     QuoteJSONString k @ js '':'' @ stringify_tree v
       @ (if kvs = [] then [] else js '','' @ stringify_members kvs)"

fun JSON_stringify :: "jsval \<Rightarrow> jsstring option" where
  "JSON_stringify (Val t) = Some (stringify_tree t)"
| "JSON_stringify ObjectPrototype = Some (js ''{}'')"
| "JSON_stringify NullVal = Some (js ''null'')"
| "JSON_stringify Function = None"

text \<open>\<open>typeof v === 'string' ? v : JSON.stringify(v)\<close>\<close>

fun as_text :: "jsval \<Rightarrow> jsstring option" where
  "as_text (Val (Leaf s)) = Some s"
| "as_text v = JSON_stringify v"

text \<open>The loop over the parts of the key.\<close>

fun descend :: "jsstring list \<Rightarrow> jsval \<Rightarrow> jsstring option" where
  "descend [] current = as_text current"
| "descend (part # parts) current =
     (if is_object current \<and> get current part \<noteq> None
      then (case get current part of Some v \<Rightarrow> descend parts v | None \<Rightarrow> None)
      else None)"

text \<open>\<open>getNestedValue\<close>; an absent mapping (\<open>null\<close>, \<open>undefined\<close>) is \<open>None\<close>, and so is the result \<open>undefined\<close>.\<close>

definition getNestedValue :: "(jsstring \<times> tree) list option \<Rightarrow> jsstring \<Rightarrow> jsstring option" where
  "getNestedValue obj key =
     (case obj of
        None \<Rightarrow> None
      | Some kvs \<Rightarrow>
          (case get (Val (Node kvs)) key of
             Some v \<Rightarrow> as_text v
           | None \<Rightarrow> descend (split_on (of_char CHR ''.'') key) (Val (Node kvs))))"


subsection \<open>The change extractor\<close>

text \<open>A Translation Change Record; \<open>file'\<close> and \<open>value'\<close> are its fields \<open>file\<close> and \<open>value\<close>.\<close>

record change =
  file' :: jsstring
  key :: jsstring
  value' :: jsstring
  englishValue :: jsstring
  line :: jsstring

text \<open>
  \<open>sectionRegex\<close> is \<^verbatim>\<open>/^diff --git/m\<close>, \<open>fileRegex\<close> is
  \<^verbatim>\<open>/\s+"?b\/([^"\s]+\.json)"?\s*$/\<close> and \<open>kvRegex\<close> is
  \<^verbatim>\<open>/^\s*"([^"]+)":\s*"(.*)"/\<close>.
\<close>

definition sectionRegex :: re where
  "sectionRegex = Cat [Bol, Lit (js ''diff --git'')]"

definition fileRegex :: re where
  "fileRegex =
     Cat [Plus Ws, Opt (Ch QUOTE), Lit (js ''b/''),
          Grp 1 (Cat [Plus (Neg (Or (Ch QUOTE) Ws)), Lit (js ''.json'')]),
          Opt (Ch QUOTE), Star Ws, Eol]"

definition kvRegex :: re where
  "kvRegex =
     Cat [Bol, Star Ws, C (Ch QUOTE), Grp 1 (Plus (Neg (Ch QUOTE))), C (Ch QUOTE), Lit (js '':''),
          Star Ws, C (Ch QUOTE), Grp 2 (Star Dot), C (Ch QUOTE)]"

definition sentinel :: jsstring where
  "sentinel = js ''(no English source found)''"

text \<open>\<open>englishValue || '(no English source found)'\<close>: \<open>undefined\<close> and the empty string are falsy.\<close>

definition or_sentinel :: "jsstring option \<Rightarrow> jsstring" where
  "or_sentinel v = (case v of None \<Rightarrow> sentinel | Some s \<Rightarrow> if s = [] then sentinel else s)"

text \<open>The loop over the lines of a section, which appends to \<open>changes\<close>.\<close>

fun scan_lines :: "(jsstring \<times> tree) list option \<Rightarrow> jsstring \<Rightarrow> jsstring list \<Rightarrow> change list \<Rightarrow> change list" where
  "scan_lines englishTranslations filePath [] changes = changes"
| "scan_lines englishTranslations filePath (l # lines) changes =
     scan_lines englishTranslations filePath lines
       (if startsWith l (js ''+'') \<and> \<not> startsWith l (js ''+++'') then
          (let content = drop 1 l in
           case exec False kvRegex content of
             None \<Rightarrow> changes
           | Some kvMatch \<Rightarrow>
               changes @
                 [\<lparr>file' = filePath, key = the_group kvMatch 1, value' = the_group kvMatch 2,
                   englishValue = or_sentinel (getNestedValue englishTranslations (the_group kvMatch 1)),
                   line = content\<rparr>])
        else changes)"

text \<open>The loop over the sections.\<close>

fun scan_sections :: "(jsstring \<times> tree) list option \<Rightarrow> jsstring list \<Rightarrow> change list \<Rightarrow> change list" where
  "scan_sections englishTranslations [] changes = changes"
| "scan_sections englishTranslations (section # sections) changes =
     (case split_on LF section of
        [] \<Rightarrow> scan_sections englishTranslations sections changes
      | firstLine # _ \<Rightarrow>
          (case exec False fileRegex firstLine of
             None \<Rightarrow> scan_sections englishTranslations sections changes
           | Some fileMatch \<Rightarrow>
               (let filePath = the_group fileMatch 1 in
                if \<not> endsWith filePath (js ''.json'') \<or> filePath = js ''en.json''
                then scan_sections englishTranslations sections changes
                else scan_sections englishTranslations sections
                       (scan_lines englishTranslations filePath (split_on LF section) changes))))"

text \<open>\<open>parseTranslationChangesFromDiff\<close>; \<open>diff.split\<close> raises a \<open>TypeError\<close> when \<open>diff\<close> is \<open>null\<close> or \<open>undefined\<close>.\<close>

definition parseTranslationChangesFromDiff :: "arg \<Rightarrow> (jsstring \<times> tree) list option \<Rightarrow> stop + change list" where
  "parseTranslationChangesFromDiff diff englishTranslations =
     (case diff of
        Text d \<Rightarrow>
          Inr (scan_sections englishTranslations (filter (\<lambda>s. s \<noteq> []) (split_re True sectionRegex d)) [])
      | _ \<Rightarrow> Inl TypeError)"


section \<open>Properties of the diff path filter\<close>

text \<open>Each header with the index at which its span stops: the next header, or the end of the diff.\<close>

definition span_bounds :: "(nat \<times> jsstring) list \<Rightarrow> nat \<Rightarrow> ((nat \<times> jsstring) \<times> nat) list" where
  "span_bounds hs n = zip hs (map fst (tl hs) @ [n])"

definition span_text :: "jsstring \<Rightarrow> (nat \<times> jsstring) \<times> nat \<Rightarrow> jsstring" where
  "span_text d b = slice d (fst (fst b)) (snd b)"

definition span_kept :: "(nat \<times> jsstring) \<times> nat \<Rightarrow> bool" where
  "span_kept b = (\<not> test False ignoredRegex (snd (fst b)))"

lemma span_bounds_Cons:
  "span_bounds (h # hs) n = (h, case hs of [] \<Rightarrow> n | (nxt, _) # _ \<Rightarrow> nxt) # span_bounds hs n"
  by (cases hs) (auto simp: span_bounds_def)

lemma span_bounds_Nil [simp]: "span_bounds [] n = []"
  by (simp add: span_bounds_def)

lemma spans_eq:
  "spans d hs result = result @ concat (map (span_text d) (filter span_kept (span_bounds hs (length d))))"
proof (induction hs arbitrary: result)
  case Nil
  then show ?case by simp
next
  case (Cons h hs)
  obtain start path where h: "h = (start, path)" by (cases h)
  have k: "\<And>b. span_kept ((start, path), b) \<longleftrightarrow> \<not> test False ignoredRegex path"
    by (simp add: span_kept_def)
  have t: "\<And>b. span_text d ((start, path), b) = slice d start b"
    by (simp add: span_text_def)
  show ?case
    by (simp add: h Cons.IH span_bounds_Cons k t)
qed

lemma headers_Nil: "headers i p s = [] \<longleftrightarrow> search True headerRegex i p s = None"
  by (subst headers.simps) (simp split: option.splits)

lemma headers_Cons:
  assumes "headers i p s = h # hs"
  shows "\<exists>u w rest p'. s = u @ w @ rest \<and> w \<noteq> [] \<and> fst h = i + length u
           \<and> hs = headers (i + length u + length w) p' rest"
proof -
  from assms obtain x where x: "search True headerRegex i p s = Some x"
    and h: "fst h = index x"
    and hs: "hs = headers (index x + length (matched x)) (fst (after x)) (snd (after x))"
    by (subst (asm) headers.simps) (auto split: option.splits)
  from search_Some[OF x] obtain u where u: "index x = i + length u" "s = u @ matched x @ snd (after x)"
    "attempt True headerRegex (i + length u) (cursor_after p u) (matched x @ snd (after x)) = Some x"
    by blast
  from attempt_Some(4,5)[OF u(3)]
  have "(fst (after x), snd (after x), groups x)
      \<in> set (run True headerRegex (cursor_after p u, matched x @ snd (after x), []))"
    by (metis hd_in_set)
  from headerRegex_consumes[OF this] have "matched x \<noteq> []" by auto
  then show ?thesis using u(1,2) h hs by (metis)
qed

lemma headers_partition:
  "headers i p s = hs \<Longrightarrow> hs \<noteq> [] \<Longrightarrow> length pre = i \<Longrightarrow>
     i \<le> fst (hd hs) \<and>
     s = take (fst (hd hs) - i) s @ concat (map (span_text (pre @ s)) (span_bounds hs (i + length s)))"
proof (induction "length s" arbitrary: i p s hs pre rule: less_induct)
  case less
  from less.prems obtain h hs' where hs: "hs = h # hs'" by (cases hs) auto
  with less.prems have "headers i p s = h # hs'" by simp
  from headers_Cons[OF this] obtain u w rest p' where
    s: "s = u @ w @ rest" and w: "w \<noteq> []" and h: "fst h = i + length u"
    and hs': "hs' = headers (i + length u + length w) p' rest" by blast
  have len: "i + length s = i + length u + length w + length rest" using s by simp
  show ?case
  proof (cases "hs' = []")
    case True
    have "span_text (pre @ s) (h, i + length s) = w @ rest"
      using s h less.prems(3) by (simp add: span_text_def slice_def)
    then show ?thesis using True hs s h by (simp add: span_bounds_Cons)
  next
    case False
    have "length rest < length s" using s w by simp
    from less.hyps[OF this hs'[symmetric] False, of "pre @ u @ w"] less.prems(3)
    have ih: "i + length u + length w \<le> fst (hd hs')"
      "rest = take (fst (hd hs') - (i + length u + length w)) rest
          @ concat (map (span_text ((pre @ u @ w) @ rest)) (span_bounds hs' (i + length u + length w + length rest)))"
      by simp_all
    define k where "k = fst (hd hs') - (i + length u + length w)"
    define tail where "tail = concat (map (span_text (pre @ s)) (span_bounds hs' (i + length s)))"
    have nxt: "(case hs' of [] \<Rightarrow> i + length s | (nxt, _) # _ \<Rightarrow> nxt) = fst (hd hs')"
      using False by (cases hs') auto
    have fk: "fst (hd hs') = i + length u + length w + k" using ih(1) by (simp add: k_def)
    have sp: "span_text (pre @ s) (h, fst (hd hs')) = w @ take k rest"
      using s h less.prems(3) fk by (simp add: span_text_def slice_def)
    have "(pre @ u @ w) @ rest = pre @ s" using s by simp
    with ih(2) have rest: "rest = take k rest @ tail"
      unfolding k_def tail_def len by simp
    have A: "span_bounds hs (i + length s) = (h, fst (hd hs')) # span_bounds hs' (i + length s)"
      using hs nxt by (simp add: span_bounds_Cons)
    have B: "concat (map (span_text (pre @ s)) (span_bounds hs (i + length s))) = (w @ take k rest) @ tail"
      unfolding A tail_def using sp by simp
    have "take (fst (hd hs) - i) s = u" using hs h s by simp
    moreover have "s = u @ (w @ take k rest) @ tail" using s rest by simp
    ultimately have "s = take (fst (hd hs) - i) s @ concat (map (span_text (pre @ s)) (span_bounds hs (i + length s)))"
      unfolding B by simp
    then show ?thesis using hs h by simp
  qed
qed


section \<open>Properties of the change extractor\<close>

lemma take_diff_append [simp]: "take (length (u @ r) - length r) (u @ r) = u"
  by simp

lemma search_anchored: "search False (Cat (Bol # xs)) i (Some c) s = None"
  by (induction s arbitrary: i c) (simp_all add: attempt_def run.simps)

lemma exec_anchored: "exec False (Cat (Bol # xs)) s = attempt False (Cat (Bol # xs)) 0 None s"
  by (cases s) (simp_all add: exec_def search_anchored split: option.splits)

lemma kv_run_sound:
  assumes "(p', r', g') \<in> set (run False kvRegex (None, c, []))"
  shows "\<exists>w k w' v. c = w @ [QUOTE] @ k @ [QUOTE] @ js '':'' @ w' @ [QUOTE] @ v @ [QUOTE] @ r'
        \<and> (\<forall>x \<in> set w. is_ws x) \<and> k \<noteq> [] \<and> QUOTE \<notin> set k \<and> (\<forall>x \<in> set w'. is_ws x)
        \<and> (\<forall>x \<in> set v. \<not> is_lt x) \<and> g' = [(2, v), (1, k)]"
  using assms unfolding kvRegex_def
  apply (simp add: in_run)
  apply (elim exE conjE)
  apply (simp add: Suc_le_eq)
  apply blast
  done

text \<open>
  What a match of \<open>kvRegex\<close> looks like: white space, a quoted key that is not empty and
  has no quote in it, a colon, white space, and a quoted value on the same line.
\<close>

lemma kv_exec_shape:
  assumes "exec False kvRegex c = Some x"
  shows "\<exists>w k w' v rest. c = w @ [QUOTE] @ k @ [QUOTE] @ js '':'' @ w' @ [QUOTE] @ v @ [QUOTE] @ rest
        \<and> (\<forall>x \<in> set w. is_ws x) \<and> k \<noteq> [] \<and> QUOTE \<notin> set k \<and> (\<forall>x \<in> set w'. is_ws x)
        \<and> (\<forall>x \<in> set v. \<not> is_lt x) \<and> the_group x 1 = k \<and> the_group x 2 = v"
proof -
  from assms have a: "attempt False kvRegex 0 None c = Some x"
    unfolding kvRegex_def by (simp add: exec_anchored)
  from attempt_Some(4,5)[OF a]
  have "(fst (after x), snd (after x), groups x) \<in> set (run False kvRegex (None, c, []))"
    by (metis hd_in_set)
  from kv_run_sound[OF this] obtain w k w' v where
    *: "c = w @ [QUOTE] @ k @ [QUOTE] @ js '':'' @ w' @ [QUOTE] @ v @ [QUOTE] @ snd (after x)"
       "\<forall>x \<in> set w. is_ws x" "k \<noteq> []" "QUOTE \<notin> set k" "\<forall>x \<in> set w'. is_ws x"
       "\<forall>x \<in> set v. \<not> is_lt x" "groups x = [(2, v), (1, k)]"
    by blast
  have "the_group x 1 = k \<and> the_group x 2 = v"
    using *(7) by (simp add: the_group_def group_def)
  with * show ?thesis by blast
qed

text \<open>The file of a section that is retained, and the record of a line that qualifies.\<close>

definition retained :: "jsstring \<Rightarrow> jsstring option" where
  "retained section =
     (case split_on LF section of
        [] \<Rightarrow> None
      | firstLine # _ \<Rightarrow>
          (case exec False fileRegex firstLine of
             None \<Rightarrow> None
           | Some fileMatch \<Rightarrow>
               if endsWith (the_group fileMatch 1) (js ''.json'') \<and> the_group fileMatch 1 \<noteq> js ''en.json''
               then Some (the_group fileMatch 1) else None))"

definition qualifying :: "jsstring \<Rightarrow> bool" where
  "qualifying l \<longleftrightarrow>
     startsWith l (js ''+'') \<and> \<not> startsWith l (js ''+++'') \<and> test False kvRegex (drop 1 l)"

definition entry :: "(jsstring \<times> tree) list option \<Rightarrow> jsstring \<Rightarrow> jsstring \<Rightarrow> change option" where
  "entry en f l =
     (if startsWith l (js ''+'') \<and> \<not> startsWith l (js ''+++'') then
        (case exec False kvRegex (drop 1 l) of
           None \<Rightarrow> None
         | Some kvMatch \<Rightarrow>
             Some \<lparr>file' = f, key = the_group kvMatch 1, value' = the_group kvMatch 2,
                   englishValue = or_sentinel (getNestedValue en (the_group kvMatch 1)),
                   line = drop 1 l\<rparr>)
      else None)"

definition section_changes :: "(jsstring \<times> tree) list option \<Rightarrow> jsstring \<Rightarrow> change list" where
  "section_changes en section =
     (case retained section of
        None \<Rightarrow> []
      | Some f \<Rightarrow> List.map_filter (entry en f) (split_on LF section))"

definition sections :: "jsstring \<Rightarrow> jsstring list" where
  "sections d = filter (\<lambda>s. s \<noteq> []) (split_re True sectionRegex d)"

lemma scan_lines_eq:
  "scan_lines en f ls changes = changes @ List.map_filter (entry en f) ls"
proof (induction ls arbitrary: changes)
  case Nil
  then show ?case by (simp add: List.map_filter_simps)
next
  case (Cons l ls)
  show ?case
    by (simp add: Cons.IH List.map_filter_simps entry_def Let_def split: option.splits)
qed

lemma scan_sections_eq:
  "scan_sections en ss changes = changes @ concat (map (section_changes en) ss)"
proof (induction ss arbitrary: changes)
  case Nil
  then show ?case by simp
next
  case (Cons s ss)
  show ?case
    by (simp add: Cons.IH section_changes_def retained_def scan_lines_eq Let_def
        split: list.splits option.splits)
qed

lemma parse_eq:
  "parseTranslationChangesFromDiff (Text d) en = Inr (concat (map (section_changes en) (sections d)))"
  by (simp add: parseTranslationChangesFromDiff_def scan_sections_eq sections_def)

lemma entry_Some:
  "entry en f l = Some e \<Longrightarrow>
     qualifying l \<and> file' e = f \<and> line e = drop 1 l \<and> key e \<noteq> []
       \<and> englishValue e = or_sentinel (getNestedValue en (key e))"
  by (auto simp: entry_def qualifying_def test_def split: if_splits option.splits dest: kv_exec_shape)

lemma entry_None: "entry en f l = None \<longleftrightarrow> \<not> qualifying l"
  by (auto simp: entry_def qualifying_def test_def split: if_splits option.splits)

lemma map_filter_entry:
  "map (\<lambda>e. (file' e, line e)) (List.map_filter (entry en f) ls)
     = map (\<lambda>l. (f, drop 1 l)) (filter qualifying ls)"
proof (induction ls)
  case Nil
  then show ?case by (simp add: List.map_filter_simps)
next
  case (Cons l ls)
  show ?case
  proof (cases "entry en f l")
    case None
    then show ?thesis using Cons entry_None[of en f l] by (simp add: List.map_filter_simps)
  next
    case (Some e)
    then show ?thesis using Cons entry_Some[OF Some] by (simp add: List.map_filter_simps)
  qed
qed

text \<open>The key/value shape, in words: white space, a quoted key, a colon, white space, a quoted value.\<close>

definition kv_shape :: "jsstring \<Rightarrow> bool" where
  "kv_shape c \<longleftrightarrow>
     (\<exists>w k w' v rest. c = w @ [QUOTE] @ k @ [QUOTE] @ js '':'' @ w' @ [QUOTE] @ v @ [QUOTE] @ rest
        \<and> (\<forall>x \<in> set w. is_ws x) \<and> k \<noteq> [] \<and> QUOTE \<notin> set k \<and> (\<forall>x \<in> set w'. is_ws x)
        \<and> (\<forall>x \<in> set v. \<not> is_lt x))"

lemma kv_run_complete:
  assumes w: "\<forall>x \<in> set w. is_ws x" and k: "k \<noteq> []" "QUOTE \<notin> set k"
    and w': "\<forall>x \<in> set w'. is_ws x" and v: "\<forall>x \<in> set v. \<not> is_lt x"
  shows "run False kvRegex (None, w @ [QUOTE] @ k @ [QUOTE] @ js '':'' @ w' @ [QUOTE] @ v @ [QUOTE] @ rest, []) \<noteq> []"
proof -
  let ?c = "js '':''"
  let ?r7 = "QUOTE # rest"
  let ?r6 = "v @ ?r7"
  let ?r5 = "QUOTE # ?r6"
  let ?r4 = "w' @ ?r5"
  let ?r3 = "?c @ ?r4"
  let ?r2 = "QUOTE # ?r3"
  let ?r1 = "k @ ?r2"
  let ?r0 = "QUOTE # ?r1"
  have s0: "(None, w @ ?r0, []) \<in> set (run False Bol (None, w @ ?r0, []))"
    by (simp add: in_run_Bol)
  have s1: "(cursor_after None w, ?r0, []) \<in> set (run False (Star Ws) (None, w @ ?r0, []))"
    by (rule run_RepI) (use w in auto)
  have s2: "(Some QUOTE, ?r1, []) \<in> set (run False (C (Ch QUOTE)) (cursor_after None w, ?r0, []))"
    by (rule run_CI) simp
  have "(cursor_after (Some QUOTE) k, ?r2, []) \<in> set (run False (Plus (Neg (Ch QUOTE))) (Some QUOTE, ?r1, []))"
    by (rule run_RepI) (use k in \<open>auto simp: Suc_le_eq\<close>)
  then have s3: "(cursor_after (Some QUOTE) k, ?r2, [(1, k)])
      \<in> set (run False (Grp 1 (Plus (Neg (Ch QUOTE)))) (Some QUOTE, ?r1, []))"
    unfolding in_run_Grp by simp
  have s4: "(Some QUOTE, ?r3, [(1, k)]) \<in> set (run False (C (Ch QUOTE)) (cursor_after (Some QUOTE) k, ?r2, [(1, k)]))"
    by (rule run_CI) simp
  have s5: "(cursor_after (Some QUOTE) ?c, ?r4, [(1, k)]) \<in> set (run False (Lit ?c) (Some QUOTE, ?r3, [(1, k)]))"
    by (rule run_LitI)
  have s6: "(cursor_after (cursor_after (Some QUOTE) ?c) w', ?r5, [(1, k)])
      \<in> set (run False (Star Ws) (cursor_after (Some QUOTE) ?c, ?r4, [(1, k)]))"
    by (rule run_RepI) (use w' in auto)
  have s7: "(Some QUOTE, ?r6, [(1, k)])
      \<in> set (run False (C (Ch QUOTE)) (cursor_after (cursor_after (Some QUOTE) ?c) w', ?r5, [(1, k)]))"
    by (rule run_CI) simp
  have "(cursor_after (Some QUOTE) v, ?r7, [(1, k)]) \<in> set (run False (Star Dot) (Some QUOTE, ?r6, [(1, k)]))"
    by (rule run_RepI) (use v in auto)
  then have s8: "(cursor_after (Some QUOTE) v, ?r7, [(2, v), (1, k)])
      \<in> set (run False (Grp 2 (Star Dot)) (Some QUOTE, ?r6, [(1, k)]))"
    unfolding in_run_Grp by simp
  have s9: "(Some QUOTE, rest, [(2, v), (1, k)])
      \<in> set (run False (Cat [C (Ch QUOTE)]) (cursor_after (Some QUOTE) v, ?r7, [(2, v), (1, k)]))"
    by (simp add: in_run_Cat_Cons in_run_Cat_Nil in_run_C)
  have "(Some QUOTE, rest, [(2, v), (1, k)]) \<in> set (run False kvRegex (None, w @ ?r0, []))"
    unfolding kvRegex_def
    by (intro run_Cat_ConsI[OF s0] run_Cat_ConsI[OF s1] run_Cat_ConsI[OF s2] run_Cat_ConsI[OF s3]
        run_Cat_ConsI[OF s4] run_Cat_ConsI[OF s5] run_Cat_ConsI[OF s6] run_Cat_ConsI[OF s7]
        run_Cat_ConsI[OF s8] s9)
  then show ?thesis by auto
qed

lemma kv_test_shape: "test False kvRegex c \<longleftrightarrow> kv_shape c"
proof
  assume "test False kvRegex c"
  then obtain x where "exec False kvRegex c = Some x" by (auto simp: test_def)
  from kv_exec_shape[OF this] show "kv_shape c" unfolding kv_shape_def by blast
next
  assume "kv_shape c"
  then obtain w k w' v rest where
    c: "c = w @ [QUOTE] @ k @ [QUOTE] @ js '':'' @ w' @ [QUOTE] @ v @ [QUOTE] @ rest"
    and h: "\<forall>x \<in> set w. is_ws x" "k \<noteq> []" "QUOTE \<notin> set k" "\<forall>x \<in> set w'. is_ws x" "\<forall>x \<in> set v. \<not> is_lt x"
    unfolding kv_shape_def by blast
  from kv_run_complete[OF h] have "run False kvRegex (None, c, []) \<noteq> []" unfolding c .
  then have "attempt False kvRegex 0 None c \<noteq> None" by (simp add: attempt_None)
  then show "test False kvRegex c" unfolding kvRegex_def by (simp add: test_def exec_anchored)
qed

lemma qualifying_shape: "qualifying l \<longleftrightarrow> (\<exists>c. l = of_char CHR ''+'' # c \<and> kv_shape c)"
proof
  assume q: "qualifying l"
  then have "l = of_char CHR ''+'' # drop 1 l"
    by (cases l) (auto simp: startsWith_def qualifying_def js_def)
  moreover have "kv_shape (drop 1 l)" using q by (simp add: qualifying_def kv_test_shape)
  ultimately show "\<exists>c. l = of_char CHR ''+'' # c \<and> kv_shape c" by blast
next
  assume "\<exists>c. l = of_char CHR ''+'' # c \<and> kv_shape c"
  then obtain c where l: "l = of_char CHR ''+'' # c" and c: "kv_shape c" by blast
  from c obtain w r where "c = w @ QUOTE # r" "\<forall>x \<in> set w. is_ws x"
    unfolding kv_shape_def by auto
  then have "\<forall>r. c \<noteq> of_char CHR ''+'' # r"
    by (cases w) (auto simp: is_ws_def)
  then have "\<not> startsWith l (js ''+++'')" using l by (cases c) (auto simp: startsWith_def js_def)
  then show "qualifying l" using l c by (simp add: qualifying_def kv_test_shape startsWith_def js_def)
qed


lemma retained_Some: "retained s = Some f \<Longrightarrow> endsWith f (js ''.json'') \<and> f \<noteq> js ''en.json''"
  by (auto simp: retained_def split: list.splits option.splits if_splits)

lemma in_section_changes:
  "e \<in> set (section_changes en s) \<Longrightarrow> \<exists>f l. retained s = Some f \<and> l \<in> set (split_on LF s) \<and> entry en f l = Some e"
proof -
  assume e: "e \<in> set (section_changes en s)"
  then obtain f where f: "retained s = Some f" by (cases "retained s") (auto simp: section_changes_def)
  with e have "e \<in> set (List.map_filter (entry en f) (split_on LF s))"
    by (simp add: section_changes_def)
  then obtain l where "l \<in> set (split_on LF s)" "entry en f l = Some e"
    by (auto simp: List.map_filter_def)
  with f show ?thesis by blast
qed


section \<open>Evaluation\<close>

text \<open>Unfolding these evaluates the matcher and the utilities on a given input.\<close>

lemmas eval_re = run.simps attempt_def search.simps exec_def test_def group_def the_group_def
  js_def is_lt_def is_ws_def is_digit_def is_word_def slice_def Let_def

lemmas eval_filter = filterDiffByIgnoredFiles_def headers.simps replace_g.simps headerRegex_def
  quoteRegex_def ignoredRegex_def span_bounds_def span_text_def span_kept_def

lemmas eval_parse = parseTranslationChangesFromDiff_def split_re_def split_at.simps sectionRegex_def
  fileRegex_def kvRegex_def startsWith_def endsWith_def or_sentinel_def sentinel_def
  getNestedValue_def prototype_get_def inherited_functions_def retained_def qualifying_def
  sections_def

lemmas eval_locate = getLineNumber_def RegExp_new_def terms.simps escape_atom_def then_terms_def
  quantifier_def convertToRegexPattern_def replace_g.simps escapeRegex_def specialChars_def

section \<open>The claims about the change extractor\<close>




text \<open>
  C8. Every record the extractor returns has a file that ends in \<open>.json\<close> and is not
  \<open>en.json\<close>, and a key that is not empty.
\<close>

theorem records_are_translation_entries:
  "parseTranslationChangesFromDiff (Text d) en = Inr rs \<Longrightarrow> e \<in> set rs \<Longrightarrow>
     endsWith (file' e) (js ''.json'') \<and> file' e \<noteq> js ''en.json'' \<and> key e \<noteq> []"
proof -
  assume "parseTranslationChangesFromDiff (Text d) en = Inr rs" and "e \<in> set rs"
  then obtain s where "e \<in> set (section_changes en s)"
    by (auto simp: parse_eq)
  from in_section_changes[OF this] obtain f l where "retained s = Some f" "entry en f l = Some e"
    by blast
  then show ?thesis using retained_Some[of s f] entry_Some[of en f l e] by simp
qed

theorem records_are_translation_entries_witness:
  "parseTranslationChangesFromDiff
     (Text (js ''diff --git a/en.json b/en.json'' @ [LF] @ js ''+  \"new_key\": \"New value\",'' @ [LF]
        @ js ''diff --git a/de.json b/de.json'' @ [LF] @ js ''+  \"settings\": \"Optionen\",'')) None
     = Inr [\<lparr>file' = js ''de.json'', key = js ''settings'', value' = js ''Optionen'',
              englishValue = js ''(no English source found)'', line = js ''  \"settings\": \"Optionen\",''\<rparr>]
   \<and> endsWith (js ''de.json'') (js ''.json'') \<and> js ''de.json'' \<noteq> js ''en.json'' \<and> js ''settings'' \<noteq> []"
  using records_are_translation_entries
    [of "js ''diff --git a/en.json b/en.json'' @ [LF] @ js ''+  \"new_key\": \"New value\",'' @ [LF]
        @ js ''diff --git a/de.json b/de.json'' @ [LF] @ js ''+  \"settings\": \"Optionen\",''" None
        "[\<lparr>file' = js ''de.json'', key = js ''settings'', value' = js ''Optionen'',
              englishValue = js ''(no English source found)'', line = js ''  \"settings\": \"Optionen\",''\<rparr>]"
        "\<lparr>file' = js ''de.json'', key = js ''settings'', value' = js ''Optionen'',
              englishValue = js ''(no English source found)'', line = js ''  \"settings\": \"Optionen\",''\<rparr>"]
  by (simp add: eval_parse eval_re)





section \<open>The claims about the diff path filter\<close>

text \<open>
  C2. The claim lists, in the default ignore policy, the paths that end in \<open>.png\<close>, the
  file \<open>Podfile.lock\<close> and the generated-code directory of nitrogen, as the tests of the
  repository do (\<open>should filter out png files\<close>). \<open>ignoredRegex\<close> has none of them,
  and the filter keeps the section of a \<open>.png\<close> file:
\<close>

theorem filter_keeps_png_section:
  "filterDiffByIgnoredFiles
     (Text (js ''diff --git a/assets/icon.png b/assets/icon.png'' @ [LF] @ js ''Binary files differ''))
   = Text (js ''diff --git a/assets/icon.png b/assets/icon.png'' @ [LF] @ js ''Binary files differ'')"
  by (simp add: eval_filter eval_re)

text \<open>The scenario of the claim holds: of \<open>src/App.tsx\<close> and \<open>yarn.lock\<close> only the first section is kept.\<close>

lemma filter_drops_yarn_lock_section:
  "filterDiffByIgnoredFiles
     (Text (js ''diff --git a/src/App.tsx b/src/App.tsx'' @ [LF] @ js ''+import'' @ [LF]
        @ js ''diff --git a/yarn.lock b/yarn.lock'' @ [LF] @ js ''+some-package@1.0.0:''))
   = Text (js ''diff --git a/src/App.tsx b/src/App.tsx'' @ [LF] @ js ''+import'' @ [LF])"
  by (simp add: eval_filter eval_re)

text \<open>
  C9. The filter returns \<open>undefined\<close>, \<open>null\<close> and the empty string as they are. It
  returns a diff in which \<open>headerRegex\<close> has no match unchanged. Otherwise the diff is
  the text before the first header followed by the spans of the headers, each from its
  header to the next header or to the end, and the result is that text followed by the
  spans that are kept, as they are and in the order of the diff.
\<close>

theorem filter_keeps_spans_in_order:
  "filterDiffByIgnoredFiles Undefined = Undefined
   \<and> filterDiffByIgnoredFiles Null = Null
   \<and> filterDiffByIgnoredFiles (Text []) = Text []
   \<and> (exec True headerRegex d = None \<longrightarrow> filterDiffByIgnoredFiles (Text d) = Text d)
   \<and> (headers 0 None d \<noteq> [] \<longrightarrow>
        (let hs = headers 0 None d;
             preamble = take (fst (hd hs)) d;
             bounds = span_bounds hs (length d)
         in d = preamble @ concat (map (span_text d) bounds)
            \<and> filterDiffByIgnoredFiles (Text d)
                = Text (preamble @ concat (map (span_text d) (filter span_kept bounds)))))"
proof (intro conjI impI)
  show "filterDiffByIgnoredFiles Undefined = Undefined" "filterDiffByIgnoredFiles Null = Null"
    "filterDiffByIgnoredFiles (Text []) = Text []"
    by (simp_all add: filterDiffByIgnoredFiles_def)
next
  assume "exec True headerRegex d = None"
  then have "headers 0 None d = []" by (simp add: headers_Nil exec_def)
  then show "filterDiffByIgnoredFiles (Text d) = Text d"
    by (simp add: filterDiffByIgnoredFiles_def)
next
  assume ne: "headers 0 None d \<noteq> []"
  then have d: "d \<noteq> []" by (auto simp: headers.simps attempt_def run.simps headerRegex_def js_def)
  from headers_partition[OF refl ne, of "[]"]
  have part: "d = take (fst (hd (headers 0 None d))) d
      @ concat (map (span_text d) (span_bounds (headers 0 None d) (length d)))"
    by simp
  have "filterDiffByIgnoredFiles (Text d)
      = Text (take (fst (hd (headers 0 None d))) d
          @ concat (map (span_text d) (filter span_kept (span_bounds (headers 0 None d) (length d)))))"
    using ne d by (simp add: filterDiffByIgnoredFiles_def Let_def spans_eq slice_def)
  with part show "let hs = headers 0 None d;
             preamble = take (fst (hd hs)) d;
             bounds = span_bounds hs (length d)
         in d = preamble @ concat (map (span_text d) bounds)
            \<and> filterDiffByIgnoredFiles (Text d)
                = Text (preamble @ concat (map (span_text d) (filter span_kept bounds)))"
    by (simp add: Let_def)
qed

theorem filter_keeps_spans_in_order_witness:
  "headers 0 None (js ''pre'' @ [LF] @ js ''diff --git a/yarn.lock b/yarn.lock'' @ [LF] @ js ''+y'' @ [LF]
       @ js ''diff --git a/App.tsx b/App.tsx'' @ [LF] @ js ''+x'')
     = [(4, js ''yarn.lock''), (42, js ''App.tsx'')]
   \<and> filterDiffByIgnoredFiles (Text (js ''pre'' @ [LF] @ js ''diff --git a/yarn.lock b/yarn.lock'' @ [LF] @ js ''+y'' @ [LF]
       @ js ''diff --git a/App.tsx b/App.tsx'' @ [LF] @ js ''+x''))
     = Text (js ''pre'' @ [LF] @ js ''diff --git a/App.tsx b/App.tsx'' @ [LF] @ js ''+x'')
   \<and> exec True headerRegex (js ''no header'') = None
   \<and> filterDiffByIgnoredFiles (Text (js ''no header'')) = Text (js ''no header'')"
  using filter_keeps_spans_in_order
    [of "js ''pre'' @ [LF] @ js ''diff --git a/yarn.lock b/yarn.lock'' @ [LF] @ js ''+y'' @ [LF]
       @ js ''diff --git a/App.tsx b/App.tsx'' @ [LF] @ js ''+x''"]
    filter_keeps_spans_in_order [of "js ''no header''"]
  by (simp add: eval_filter eval_re)


section \<open>The claims about the line locator\<close>

lemma split_on_not_Nil [simp]: "split_on c s \<noteq> []"
  by (induction s) (auto split: list.splits)

lemma length_split_on: "length (split_on c s) = Suc (count_list s c)"
  by (induction s) (auto split: list.splits)




lemma run_Cat_single: "run m (Cat [x]) st = run m x st"
proof -
  have "concat (map (run m (Cat [])) xs) = xs" for xs
    by (induction xs) (simp_all add: run.simps)
  then show ?thesis by (simp add: run.simps)
qed

lemma run_Rep_greedy:
  assumes "lo \<le> length (takeWhile (in_cc k) r)"
  shows "\<exists>rest. run m (Rep True lo None k) (p, r, g)
           = (cursor_after p (takeWhile (in_cc k) r), dropWhile (in_cc k) r, g) # rest"
proof -
  define n where "n = length (takeWhile (in_cc k) r)"
  have nr: "n \<le> length r" unfolding n_def by (rule length_takeWhile_le)
  have tk: "take n r = takeWhile (in_cc k) r" and dr: "drop n r = dropWhile (in_cc k) r"
    unfolding n_def by (simp_all add: takeWhile_eq_take[symmetric] dropWhile_eq_drop[symmetric])
  have rv: "rev [lo..<Suc n] = n # rev [lo..<n]" using assms by (simp add: n_def)
  have "run m (Rep True lo None k) (p, r, g)
      = map (\<lambda>j. (if j = 0 then p else Some (r ! (j - 1)), drop j r, g)) (rev [lo..<Suc n])"
    unfolding run.simps Let_def n_def by simp
  then have "run m (Rep True lo None k) (p, r, g)
      = (if n = 0 then p else Some (r ! (n - 1)), drop n r, g)
          # map (\<lambda>j. (if j = 0 then p else Some (r ! (j - 1)), drop j r, g)) (rev [lo..<n])"
    unfolding rv by simp
  moreover have "(if n = 0 then p else Some (r ! (n - 1))) = cursor_after p (take n r)"
    using nr by (auto simp: cursor_after_def last_take_nth)
  ultimately show ?thesis unfolding tk dr by simp
qed

lemma take_minus_dropWhile: "take (length xs - length (dropWhile P xs)) xs = takeWhile P xs"
proof -
  have "length xs = length (takeWhile P xs) + length (dropWhile P xs)"
    by (metis length_append takeWhile_dropWhile_id)
  then have "length xs - length (dropWhile P xs) = length (takeWhile P xs)" by simp
  then show ?thesis by (simp add: takeWhile_eq_take[symmetric])
qed

lemma run_Plus_Nil: "run m (Plus k) (p, [], g) = []"
  by (simp add: run.simps)

lemma run_Plus_mismatch: "\<not> in_cc k c \<Longrightarrow> run m (Plus k) (p, c # r, g) = []"
  by (simp add: run.simps)

text \<open>The leftmost match of \<^verbatim>\<open>\s+\<close> is the first maximal run of white space.\<close>

lemma search_whitespace:
  "search False (Cat [Plus Ws]) i p t =
     (if \<exists>c \<in> set t. is_ws c then
        Some \<lparr>index = i + length (takeWhile (\<lambda>c. \<not> is_ws c) t),
              matched = takeWhile is_ws (dropWhile (\<lambda>c. \<not> is_ws c) t),
              groups = [],
              after = (cursor_after p (takeWhile (\<lambda>c. \<not> is_ws c) t @ takeWhile is_ws (dropWhile (\<lambda>c. \<not> is_ws c) t)),
                       dropWhile is_ws (dropWhile (\<lambda>c. \<not> is_ws c) t))\<rparr>
      else None)"
proof (induction t arbitrary: i p)
  case Nil
  then show ?case by (simp add: attempt_def run_Cat_single run_Plus_Nil)
next
  case (Cons c t)
  show ?case
  proof (cases "is_ws c")
    case False
    then have "attempt False (Cat [Plus Ws]) i p (c # t) = None"
      by (simp add: attempt_def run_Cat_single run_Plus_mismatch)
    then show ?thesis using False Cons.IH[of "Suc i" "Some c"]
      by (simp add: cursor_after_def)
  next
    case True
    then have "Suc 0 \<le> length (takeWhile (in_cc Ws) (c # t))" by simp
    from run_Rep_greedy[OF this, of False p "[]"] obtain rest where
      "run False (Plus Ws) (p, c # t, []) =
         (cursor_after p (takeWhile (in_cc Ws) (c # t)), dropWhile (in_cc Ws) (c # t), []) # rest"
      by blast
    moreover have "in_cc Ws = is_ws" by (rule ext) simp
    ultimately have "attempt False (Cat [Plus Ws]) i p (c # t) =
        Some \<lparr>index = i, matched = c # takeWhile is_ws t, groups = [],
              after = (cursor_after p (c # takeWhile is_ws t), dropWhile is_ws t)\<rparr>"
      using True take_minus_dropWhile[of "c # t" is_ws]
      by (simp add: attempt_def run_Cat_single)
    then show ?thesis using True by simp
  qed
qed

lemma ws_not_special: "is_ws c \<Longrightarrow> c \<notin> set specialChars"
  by (auto simp: is_ws_def specialChars_def js_def)

lemma search_escape_none:
  "\<forall>c \<in> set s. c \<notin> set specialChars \<Longrightarrow> search False escapeRegex i p s = None"
  by (induction s arbitrary: i p) (simp_all add: attempt_def escapeRegex_def run.simps)

lemma convert_whitespace:
  assumes "s \<noteq> []" "\<forall>c \<in> set s. is_ws c"
  shows "convertToRegexPattern s = BACKSLASH # js ''s+''"
proof -
  have "replace_g False escapeRegex (\<lambda>x. BACKSLASH # the_group x 1) 0 None s = s"
    using assms(2) by (subst replace_g.simps) (simp add: search_escape_none ws_not_special)
  moreover have "search False (Plus Ws) 0 None s
      = Some \<lparr>index = 0, matched = s, groups = [], after = (cursor_after None s, [])\<rparr>"
  proof -
    have eq: "search False (Plus Ws) i p t = search False (Cat [Plus Ws]) i p t" for i p t
      by (induction t arbitrary: i p) (simp_all add: attempt_def run_Cat_single split: option.splits list.splits)
    have a: "takeWhile (\<lambda>c. \<not> is_ws c) s = []" "dropWhile (\<lambda>c. \<not> is_ws c) s = s"
      using assms by (cases s; simp)+
    have b: "takeWhile is_ws s = s" "dropWhile is_ws s = []" using assms(2) by simp_all
    have c: "\<exists>c \<in> set s. is_ws c" using assms by (cases s) auto
    show ?thesis unfolding eq search_whitespace a b using c by simp
  qed
  moreover have "replace_g False (Plus Ws) f i p [] = []" for f i p
    by (subst replace_g.simps) (simp add: attempt_def run_Plus_Nil)
  ultimately show ?thesis
    using assms(1) unfolding convertToRegexPattern_def
    by (subst replace_g.simps) simp
qed


text \<open>
  C10. For a text that contains white space and a snippet that is not empty and is all
  white space, the pattern is \<^verbatim>\<open>\s+\<close>, its match is the first maximal run of white
  space of the text, and \<open>getLineNumber\<close> returns the line of the last line of that run,
  which is not \<open>-1\<close>.
\<close>

theorem getLineNumber_whitespace_snippet:
  assumes "\<exists>c \<in> set t. is_ws c" and "s \<noteq> []" and "\<forall>c \<in> set s. is_ws c"
  shows "convertToRegexPattern s = BACKSLASH # js ''s+''
    \<and> getLineNumber (Text t) (Text s)
        = Inr (int (count_list (takeWhile (\<lambda>c. \<not> is_ws c) t) LF)
               + int (Suc (count_list (takeWhile is_ws (dropWhile (\<lambda>c. \<not> is_ws c) t)) LF)))
    \<and> getLineNumber (Text t) (Text s) \<noteq> Inr (- 1)"
proof -
  have t: "t \<noteq> []" using assms(1) by auto
  have p: "convertToRegexPattern s = BACKSLASH # js ''s+''"
    using assms(2,3) by (rule convert_whitespace)
  have r: "RegExp_new (BACKSLASH # js ''s+'') = Inr (Cat [Plus Ws])"
    by (simp add: RegExp_new_def escape_atom_def then_terms_def quantifier_def js_def)
  have tk: "take (length (takeWhile (\<lambda>c. \<not> is_ws c) t)) t = takeWhile (\<lambda>c. \<not> is_ws c) t"
    by (simp add: takeWhile_eq_take[symmetric])
  have "getLineNumber (Text t) (Text s)
        = Inr (int (count_list (takeWhile (\<lambda>c. \<not> is_ws c) t) LF)
               + int (Suc (count_list (takeWhile is_ws (dropWhile (\<lambda>c. \<not> is_ws c) t)) LF)))"
    using t assms(1,2)
    by (simp add: getLineNumber_def p r exec_def search_whitespace Let_def tk length_split_on)
  with p show ?thesis by simp
qed

theorem getLineNumber_whitespace_snippet_witness:
  "(\<exists>c \<in> set (js ''ab '' @ [LF] @ js '' cd  e''). is_ws c) \<and> [LF, 0x20] \<noteq> [] \<and> list_all is_ws [LF, 0x20]
   \<and> getLineNumber (Text (js ''ab '' @ [LF] @ js '' cd  e'')) (Text [LF, 0x20]) = Inr 2"
  using getLineNumber_whitespace_snippet [of "js ''ab '' @ [LF] @ js '' cd  e''" "[LF, 0x20]"]
  by (simp add: js_def is_ws_def)

subsection \<open>The pattern of a snippet\<close>

lemma search_index_ge: "search m r i p s = Some x \<Longrightarrow> i \<le> index x"
  using search_Some[of m r i p s x] by auto

lemma replace_g_skip:
  assumes "attempt m r i p (c # cs) = None"
  shows "replace_g m r f i p (c # cs) = c # replace_g m r f (Suc i) (Some c) cs"
proof (cases "search m r (Suc i) (Some c) cs")
  case None
  then show ?thesis using assms
    by (subst replace_g.simps, subst (2) replace_g.simps) simp
next
  case (Some x)
  from search_index_ge[OF Some] have "index x - i = Suc (index x - Suc i)" by simp
  then show ?thesis using assms Some
    by (subst replace_g.simps, subst (2) replace_g.simps) simp
qed

lemma replace_g_hit:
  assumes "attempt m r i p s = Some x" "matched x \<noteq> []"
  shows "replace_g m r f i p s
    = f x @ replace_g m r f (i + length (matched x)) (fst (after x)) (snd (after x))"
proof -
  have "search m r i p s = Some x" using assms(1) by (cases s) simp_all
  moreover have "index x = i" using attempt_Some(1)[OF assms(1)] .
  ultimately show ?thesis using assms(2) by (subst replace_g.simps) simp
qed

lemma replace_g_end: "attempt m r i p [] = None \<Longrightarrow> replace_g m r f i p [] = []"
  by (subst replace_g.simps) simp

text \<open>The first replacement puts a backslash before every special character.\<close>

definition escape_special :: "jsstring \<Rightarrow> jsstring" where
  "escape_special s = concat (map (\<lambda>c. if c \<in> set specialChars then [BACKSLASH, c] else [c]) s)"

lemma replace_escape:
  "replace_g False escapeRegex (\<lambda>x. BACKSLASH # the_group x (Suc 0)) i p s = escape_special s"
proof (induction s arbitrary: i p)
  case Nil
  have "attempt False escapeRegex i p [] = None"
    by (simp add: attempt_def escapeRegex_def run.simps)
  then show ?case by (simp add: replace_g_end escape_special_def)
next
  case (Cons c cs)
  show ?case
  proof (cases "c \<in> set specialChars")
    case True
    then have a: "attempt False escapeRegex i p (c # cs)
        = Some \<lparr>index = i, matched = [c], groups = [(1, [c])], after = (Some c, cs)\<rparr>"
      by (simp add: attempt_def escapeRegex_def run.simps)
    show ?thesis
      using True Cons.IH
      by (simp add: replace_g_hit[OF a] the_group_def group_def escape_special_def)
  next
    case False
    then have a: "attempt False escapeRegex i p (c # cs) = None"
      by (simp add: attempt_def escapeRegex_def run.simps)
    show ?thesis using False Cons.IH by (simp add: replace_g_skip[OF a] escape_special_def)
  qed
qed

text \<open>The second replacement puts \<^verbatim>\<open>\s+\<close> for every maximal run of white space.\<close>

function collapse_ws :: "jsstring \<Rightarrow> jsstring" where
  "collapse_ws [] = []"
| "collapse_ws (c # cs) =
     (if is_ws c then BACKSLASH # js ''s+'' @ collapse_ws (dropWhile is_ws cs)
      else c # collapse_ws cs)"
  by pat_completeness auto
termination
  by (relation "measure length") (auto simp: length_dropWhile_le less_Suc_eq_le)

lemma replace_whitespace:
  "replace_g False (Plus Ws) (\<lambda>_. BACKSLASH # js ''s+'') i p s = collapse_ws s"
proof (induction s arbitrary: i p rule: collapse_ws.induct)
  case 1
  have "attempt False (Plus Ws) i p [] = None"
    by (simp add: attempt_def run_Plus_Nil)
  then show ?case by (simp add: replace_g_end)
next
  case (2 c cs)
  show ?case
  proof (cases "is_ws c")
    case True
    then have "Suc 0 \<le> length (takeWhile (in_cc Ws) (c # cs))" by simp
    from run_Rep_greedy[OF this, of False p "[]"] obtain rest where
      "run False (Plus Ws) (p, c # cs, []) =
         (cursor_after p (takeWhile (in_cc Ws) (c # cs)), dropWhile (in_cc Ws) (c # cs), []) # rest"
      by blast
    moreover have "in_cc Ws = is_ws" by (rule ext) simp
    ultimately have a: "attempt False (Plus Ws) i p (c # cs) =
        Some \<lparr>index = i, matched = c # takeWhile is_ws cs, groups = [],
              after = (cursor_after p (c # takeWhile is_ws cs), dropWhile is_ws cs)\<rparr>"
      using True take_minus_dropWhile[of "c # cs" is_ws]
      by (simp add: attempt_def)
    show ?thesis using True "2.IH"(1) by (simp add: replace_g_hit[OF a])
  next
    case False
    then have a: "attempt False (Plus Ws) i p (c # cs) = None"
      by (simp add: attempt_def run_Plus_mismatch)
    show ?thesis using False "2.IH"(2) by (simp add: replace_g_skip[OF a])
  qed
qed

text \<open>
  \<open>convertToRegexPattern\<close> escapes every special character and then collapses every
  maximal run of white space.
\<close>

lemma convertToRegexPattern_closed_form:
  "convertToRegexPattern s = collapse_ws (escape_special s)"
  by (simp add: convertToRegexPattern_def replace_escape replace_whitespace)


lemma escape_special_Nil [simp]: "escape_special [] = []"
  by (simp add: escape_special_def)

lemma escape_special_Cons:
  "escape_special (c # cs) =
     (if c \<in> set specialChars then BACKSLASH # c # escape_special cs else c # escape_special cs)"
  by (simp add: escape_special_def)

lemma backslash_not_ws: "\<not> is_ws BACKSLASH"
  by (simp add: is_ws_def)

lemma escape_special_dropWhile:
  "dropWhile is_ws (escape_special s) = escape_special (dropWhile is_ws s)"
  by (induction s) (auto simp: escape_special_Cons ws_not_special backslash_not_ws)

text \<open>The terms of the pattern of a snippet that has no backslash in it.\<close>

function snippet_terms :: "jsstring \<Rightarrow> re list" where
  "snippet_terms [] = []"
| "snippet_terms (c # cs) =
     (if is_ws c then Plus Ws # snippet_terms (dropWhile is_ws cs)
      else C (Ch c) # snippet_terms cs)"
  by pat_completeness auto
termination
  by (relation "measure length") (auto simp: length_dropWhile_le less_Suc_eq_le)

lemma special_cases:
  "c \<in> set specialChars \<longleftrightarrow> c \<in> {46, 42, 43, 63, 94, 61, 33, 58, 36, 123, 125, 40, 41, 124, 91, 93, 47, 45}"
  by (simp add: specialChars_def js_def)

lemma escape_atom_nonword: "\<not> is_word c \<Longrightarrow> escape_atom c = Inr (Ch c)"
proof -
  assume a: "\<not> is_word c"
  have "is_word (of_char CHR ''d'')" "is_word (of_char CHR ''D'')" "is_word (of_char CHR ''s'')"
    "is_word (of_char CHR ''S'')" "is_word (of_char CHR ''w'')" "is_word (of_char CHR ''W'')"
    "is_word (of_char CHR ''f'')" "is_word (of_char CHR ''n'')" "is_word (of_char CHR ''r'')"
    "is_word (of_char CHR ''t'')" "is_word (of_char CHR ''v'')"
    by (simp_all add: is_word_def)
  with a have "c \<noteq> of_char CHR ''d''" "c \<noteq> of_char CHR ''D''" "c \<noteq> of_char CHR ''s''"
    "c \<noteq> of_char CHR ''S''" "c \<noteq> of_char CHR ''w''" "c \<noteq> of_char CHR ''W''"
    "c \<noteq> of_char CHR ''f''" "c \<noteq> of_char CHR ''n''" "c \<noteq> of_char CHR ''r''"
    "c \<noteq> of_char CHR ''t''" "c \<noteq> of_char CHR ''v''"
    by blast+
  with a show ?thesis unfolding escape_atom_def by (simp only: if_False simp_thms)
qed

lemma special_not_word: "c \<in> set specialChars \<Longrightarrow> \<not> is_word c"
  unfolding special_cases by (auto simp: is_word_def is_digit_def)

lemma escape_atom_special: "c \<in> set specialChars \<Longrightarrow> escape_atom c = Inr (Ch c)"
  by (rule escape_atom_nonword) (rule special_not_word)

lemma quantifier_pattern:
  "quantifier k (collapse_ws (escape_special s)) = (C k, collapse_ws (escape_special s))"
proof (cases s)
  case Nil
  then show ?thesis by (simp add: quantifier_def)
next
  case (Cons c cs)
  show ?thesis
  proof (cases "is_ws c \<or> c \<in> set specialChars")
    case True
    then show ?thesis using Cons
      by (auto simp: quantifier_def escape_special_Cons ws_not_special backslash_not_ws)
  next
    case False
    then have "c \<noteq> 42 \<and> c \<noteq> 43 \<and> c \<noteq> 63" unfolding special_cases by simp
    then show ?thesis using Cons False
      by (simp add: quantifier_def escape_special_Cons)
  qed
qed

lemma terms_pattern:
  "BACKSLASH \<notin> set s \<Longrightarrow> terms (collapse_ws (escape_special s)) = Inr (snippet_terms s)"
proof (induction s rule: snippet_terms.induct)
  case 1
  then show ?case by simp
next
  case (2 c cs)
  show ?case
  proof (cases "is_ws c")
    case True
    from "2.prems" have "BACKSLASH \<notin> set (dropWhile is_ws cs)"
      by (auto dest: set_dropWhileD)
    from "2.IH"(1)[OF True this] True show ?thesis
      by (simp add: escape_special_Cons ws_not_special escape_special_dropWhile
          js_def escape_atom_def quantifier_def then_terms_def)
  next
    case False
    from "2.prems" have nb: "BACKSLASH \<notin> set cs" "c \<noteq> BACKSLASH" by auto
    note ih = "2.IH"(2)[OF False nb(1)]
    show ?thesis
    proof (cases "c \<in> set specialChars")
      case True
      then show ?thesis using False ih
        by (simp add: escape_special_Cons backslash_not_ws escape_atom_special
            quantifier_pattern then_terms_def)
    next
      case False2: False
      then have "c \<noteq> 94 \<and> c \<noteq> 36 \<and> c \<noteq> 46 \<and> c \<notin> set (js ''*+?()[]{}|'')"
        unfolding special_cases by (simp add: js_def)
      then show ?thesis using False False2 ih nb(2)
        by (simp add: escape_special_Cons quantifier_pattern then_terms_def)
    qed
  qed
qed

lemma RegExp_new_pattern:
  "BACKSLASH \<notin> set s \<Longrightarrow> RegExp_new (convertToRegexPattern s) = Inr (Cat (snippet_terms s))"
  by (simp add: RegExp_new_def convertToRegexPattern_closed_form terms_pattern)


text \<open>
  \<open>squeeze s\<close> is \<open>s\<close> with every maximal run of white space replaced by one space: two
  strings are the same up to white space when they squeeze to the same string.
\<close>

function squeeze :: "jsstring \<Rightarrow> jsstring" where
  "squeeze [] = []"
| "squeeze (c # cs) = (if is_ws c then 0x20 # squeeze (dropWhile is_ws cs) else c # squeeze cs)"
  by pat_completeness auto
termination
  by (relation "measure length") (auto simp: length_dropWhile_le less_Suc_eq_le)

lemma space_is_ws: "is_ws 0x20"
  by (simp add: is_ws_def)

lemma squeeze_eq_Nil [simp]: "squeeze u = [] \<longleftrightarrow> u = []"
  by (cases u) simp_all

lemma squeeze_starts_ws: "u \<noteq> [] \<Longrightarrow> is_ws (hd (squeeze u)) = is_ws (hd u)"
  by (cases u) (simp_all add: space_is_ws)

lemma squeeze_ws_append:
  assumes "w \<noteq> []" "\<forall>c \<in> set w. is_ws c"
  shows "squeeze (w @ u) = 0x20 # squeeze (dropWhile is_ws u)"
proof -
  from assms obtain a w' where w: "w = a # w'" "is_ws a" "\<forall>c \<in> set w'. is_ws c"
    by (cases w) auto
  then have "dropWhile is_ws (w' @ u) = dropWhile is_ws u" by (simp add: dropWhile_append)
  with w show ?thesis by simp
qed

lemma squeeze_same_start:
  assumes "squeeze u = squeeze v"
  shows "dropWhile is_ws u = u \<longleftrightarrow> dropWhile is_ws v = v"
proof -
  have d: "dropWhile is_ws x = x \<longleftrightarrow> x = [] \<or> \<not> is_ws (hd x)" for x :: jsstring
  proof (cases x)
    case Nil
    then show ?thesis by simp
  next
    case (Cons a xs)
    have "dropWhile is_ws xs \<noteq> a # xs"
      using length_dropWhile_le[of is_ws xs] by (auto dest: arg_cong[where f = length])
    with Cons show ?thesis by simp
  qed
  show ?thesis using assms squeeze_starts_ws[of u] squeeze_starts_ws[of v] squeeze_eq_Nil[of u]
      squeeze_eq_Nil[of v]
    unfolding d by metis
qed

lemma snippet_terms_sound:
  "(p', r', g') \<in> set (run m (Cat (snippet_terms s)) (p, r, g))
     \<Longrightarrow> \<exists>u. r = u @ r' \<and> squeeze u = squeeze s"
proof (induction s arbitrary: p r g rule: snippet_terms.induct)
  case 1
  then show ?case by (simp add: in_run_Cat_Nil)
next
  case (2 c cs)
  show ?case
  proof (cases "is_ws c")
    case True
    with "2.prems" obtain p1 r1 g1 where
      a: "(p1, r1, g1) \<in> set (run m (Plus Ws) (p, r, g))"
      and b: "(p', r', g') \<in> set (run m (Cat (snippet_terms (dropWhile is_ws cs))) (p1, r1, g1))"
      by (auto simp: in_run_Cat_Cons)
    from a obtain w where "r = w @ r1" "\<forall>c \<in> set w. is_ws c" "Suc 0 \<le> length w"
      unfolding in_run_Rep by auto
    then have w: "r = w @ r1" "\<forall>c \<in> set w. is_ws c" "w \<noteq> []" by auto
    from "2.IH"(1)[OF True b] obtain u where
      u: "r1 = u @ r'" "squeeze u = squeeze (dropWhile is_ws cs)" by blast
    have "dropWhile is_ws (dropWhile is_ws cs) = dropWhile is_ws cs"
      by (metis dropWhile_idem)
    with squeeze_same_start[OF u(2)] have "dropWhile is_ws u = u" by simp
    then have "squeeze (w @ u) = squeeze (c # cs)"
      using w(2,3) u(2) True by (simp add: squeeze_ws_append)
    with w(1) u(1) show ?thesis by (intro exI[of _ "w @ u"]) simp
  next
    case False
    with "2.prems" obtain p1 r1 g1 where
      a: "(p1, r1, g1) \<in> set (run m (C (Ch c)) (p, r, g))"
      and b: "(p', r', g') \<in> set (run m (Cat (snippet_terms cs)) (p1, r1, g1))"
      by (auto simp: in_run_Cat_Cons)
    from a have r: "r = c # r1" unfolding in_run_C by auto
    from "2.IH"(2)[OF False b] obtain u where u: "r1 = u @ r'" "squeeze u = squeeze cs" by blast
    with r False show ?thesis by (intro exI[of _ "c # u"]) simp
  qed
qed

lemma snippet_terms_complete:
  "squeeze u = squeeze s \<Longrightarrow> \<exists>p'. (p', r', g) \<in> set (run m (Cat (snippet_terms s)) (p, u @ r', g))"
proof (induction s arbitrary: u p rule: snippet_terms.induct)
  case 1
  then show ?case by (simp add: in_run_Cat_Nil)
next
  case (2 c cs)
  from "2.prems" obtain a us where u: "u = a # us" by (cases u) (auto split: if_splits)
  show ?case
  proof (cases "is_ws c")
    case True
    with "2.prems" u have wa: "is_ws a" by (auto split: if_splits simp: space_is_ws)
    with "2.prems" u True have "squeeze (dropWhile is_ws us) = squeeze (dropWhile is_ws cs)" by simp
    from "2.IH"(1)[OF True this] obtain p' where
      p': "(p', r', g) \<in> set (run m (Cat (snippet_terms (dropWhile is_ws cs)))
             (cursor_after p (a # takeWhile is_ws us), dropWhile is_ws us @ r', g))" by blast
    have al: "\<forall>c \<in> set (a # takeWhile is_ws us). in_cc Ws c"
      using wa by (auto dest: set_takeWhileD)
    have eq: "u @ r' = (a # takeWhile is_ws us) @ dropWhile is_ws us @ r'"
      by (metis u append_Cons append_assoc takeWhile_dropWhile_id)
    have "(cursor_after p (a # takeWhile is_ws us), dropWhile is_ws us @ r', g)
        \<in> set (run m (Plus Ws) (p, u @ r', g))"
      unfolding eq by (rule run_RepI) (use al in simp_all)
    from run_Cat_ConsI[OF this p'] True show ?thesis by auto
  next
    case False
    with "2.prems" u have na: "a = c" "squeeze us = squeeze cs"
      by (auto split: if_splits simp: space_is_ws)
    from "2.IH"(2)[OF False na(2)] obtain p' where
      p': "(p', r', g) \<in> set (run m (Cat (snippet_terms cs)) (Some c, us @ r', g))" by blast
    have "(Some c, us @ r', g) \<in> set (run m (C (Ch c)) (p, u @ r', g))"
      using u na(1) by (simp add: in_run_C)
    from run_Cat_ConsI[OF this p'] False show ?thesis by auto
  qed
qed

text \<open>
  For a snippet without a backslash, \<open>getLineNumber\<close> returns a line exactly when the
  text has a part that is the snippet up to white space; the match it takes is such a
  part, the leftmost one.
\<close>

lemma getLineNumber_finds_up_to_white_space:
  assumes "t \<noteq> []" "s \<noteq> []" "BACKSLASH \<notin> set s"
  shows "getLineNumber (Text t) (Text s) \<noteq> Inr (- 1)
      \<longleftrightarrow> (\<exists>a u b. t = a @ u @ b \<and> squeeze u = squeeze s)"
    and "\<exists>n. getLineNumber (Text t) (Text s) = Inr n"
    and "exec False (Cat (snippet_terms s)) t = Some x \<Longrightarrow> squeeze (matched x) = squeeze s"
proof -
  let ?re = "Cat (snippet_terms s)"
  note re = RegExp_new_pattern[OF assms(3)]
  have found: "squeeze (matched x) = squeeze s" if x: "exec False ?re t = Some x" for x
  proof -
    from x have "search False ?re 0 None t = Some x" by (simp add: exec_def)
    from search_Some[OF this] obtain a where
      a: "attempt False ?re (0 + length a) (cursor_after None a) (matched x @ snd (after x)) = Some x"
      by blast
    from attempt_Some(4,5)[OF a]
    have "(fst (after x), snd (after x), groups x)
        \<in> set (run False ?re (cursor_after None a, matched x @ snd (after x), []))"
      by (metis list.set_sel(1))
    from snippet_terms_sound[OF this] show ?thesis by auto
  qed
  then show "exec False ?re t = Some x \<Longrightarrow> squeeze (matched x) = squeeze s" .
  show "\<exists>n. getLineNumber (Text t) (Text s) = Inr n"
    using assms(1,2) re by (simp add: getLineNumber_def Let_def split: option.splits)
  show "getLineNumber (Text t) (Text s) \<noteq> Inr (- 1)
      \<longleftrightarrow> (\<exists>a u b. t = a @ u @ b \<and> squeeze u = squeeze s)"
  proof (cases "exec False ?re t")
    case None
    have "squeeze u \<noteq> squeeze s" if "t = a @ u @ b" for a u b
    proof
      assume "squeeze u = squeeze s"
      from snippet_terms_complete[OF this, of b "[]" False "cursor_after None a"]
      have "run False ?re (cursor_after None a, u @ b, []) \<noteq> []" by auto
      moreover from None
      have "\<forall>k \<le> length t. run False ?re (cursor_after None (take k t), drop k t, []) = []"
        unfolding exec_def search_None .
      from spec[OF this, of "length a"]
      have "run False ?re (cursor_after None a, u @ b, []) = []" using that by simp
      ultimately show False by simp
    qed
    moreover have "getLineNumber (Text t) (Text s) = Inr (- 1)"
      using assms(1,2) re None by (simp add: getLineNumber_def)
    ultimately show ?thesis by blast
  next
    case (Some x)
    from Some have "search False ?re 0 None t = Some x" by (simp add: exec_def)
    from search_Some[OF this] obtain a where "t = a @ matched x @ snd (after x)" by auto
    with found[OF Some] have "\<exists>a u b. t = a @ u @ b \<and> squeeze u = squeeze s" by blast
    moreover have "getLineNumber (Text t) (Text s) \<noteq> Inr (- 1)"
      using assms(1,2) re Some by (simp add: getLineNumber_def Let_def length_split_on)
    ultimately show ?thesis by blast
  qed
qed


subsection \<open>A snippet with a backslash\<close>

text \<open>
  C5. \<open>convertToRegexPattern\<close> escapes the listed characters and collapses the runs of
  white space, but it leaves a backslash of the snippet as it is, and in the pattern the
  backslash escapes what follows it. A snippet that has a backslash in it, as a line of
  a translation file with \<^verbatim>\<open>\n\<close> in its value has, is then not found in a text
  that contains it as it is: the pattern asks for a line feed where the text has a
  backslash and an \<open>n\<close>.
\<close>

theorem getLineNumber_misses_snippet_with_backslash:
  "convertToRegexPattern (js ''\"k\": \"a'' @ [BACKSLASH] @ js ''nb\"'')
     = js ''\"k\"'' @ [BACKSLASH] @ js '':'' @ [BACKSLASH] @ js ''s+\"a'' @ [BACKSLASH] @ js ''nb\"''
   \<and> getLineNumber (Text (js ''{'' @ [LF] @ js ''\"k\": \"a'' @ [BACKSLASH] @ js ''nb\"'' @ [LF] @ js ''}''))
        (Text (js ''\"k\": \"a'' @ [BACKSLASH] @ js ''nb\"'')) = Inr (- 1)"
  by (simp add: eval_locate eval_re)

text \<open>A snippet that ends in a backslash makes \<open>new RegExp\<close> raise a \<open>SyntaxError\<close>.\<close>

lemma getLineNumber_throws_on_trailing_backslash:
  "getLineNumber (Text (js ''a'' @ [BACKSLASH])) (Text (js ''a'' @ [BACKSLASH])) = Inl SyntaxError"
  by (simp add: eval_locate eval_re)


section \<open>The claims about the file of a section\<close>

lemma file_run_sound:
  assumes "(p', r', g') \<in> set (run False fileRegex (p, r, []))"
  shows "\<exists>w q X q' w'. r = w @ q @ js ''b/'' @ X @ js ''.json'' @ q' @ w' \<and> r' = []
      \<and> w \<noteq> [] \<and> (\<forall>c \<in> set w. is_ws c) \<and> length q \<le> 1 \<and> (\<forall>c \<in> set q. c = QUOTE)
      \<and> X \<noteq> [] \<and> (\<forall>c \<in> set X. c \<noteq> QUOTE \<and> \<not> is_ws c)
      \<and> length q' \<le> 1 \<and> (\<forall>c \<in> set q'. c = QUOTE) \<and> (\<forall>c \<in> set w'. is_ws c)
      \<and> g' = [(1, X @ js ''.json'')]"
proof -
  from assms have "r' = []"
    using run_consumes unfolding fileRegex_def
    by (auto simp: in_run split: list.splits)
  with assms show ?thesis
    unfolding fileRegex_def
    apply (simp add: in_run)
    apply (elim exE conjE)
    apply (simp add: Suc_le_eq)
    apply blast
    done
qed

text \<open>The longest suffix of characters that are neither white space nor a quote.\<close>

definition plain :: "jschar \<Rightarrow> bool" where
  "plain c \<longleftrightarrow> c \<noteq> QUOTE \<and> \<not> is_ws c"

lemma takeWhile_plain_suffix:
  assumes "\<not> plain c" "\<forall>x \<in> set S. plain x"
  shows "takeWhile plain (rev (A @ [c] @ S)) = rev S"
proof -
  have "takeWhile plain (rev S @ c # rev A) = rev S @ takeWhile plain (c # rev A)"
    by (rule takeWhile_append2) (use assms(2) in auto)
  then show ?thesis using assms(1) by simp
qed

lemma plain_suffix_unique:
  assumes "xs = A @ [c] @ S" "\<not> plain c" "\<forall>x \<in> set S. plain x"
    and "xs = A' @ [c'] @ S'" "\<not> plain c'" "\<forall>x \<in> set S'. plain x"
  shows "S = S'"
proof -
  have "takeWhile plain (rev xs) = rev S"
    unfolding assms(1) using assms(2,3) by (rule takeWhile_plain_suffix)
  moreover have "takeWhile plain (rev xs) = rev S'"
    unfolding assms(4) using assms(5,6) by (rule takeWhile_plain_suffix)
  ultimately show ?thesis by simp
qed


lemma json_plain: "\<forall>c \<in> set (js ''.json''). plain c" "\<forall>c \<in> set (js ''b/''). plain c"
  by (simp_all add: js_def plain_def is_ws_def)

lemma quote_list: "length q \<le> 1 \<Longrightarrow> \<forall>c \<in> set q. c = QUOTE \<Longrightarrow> q = [] \<or> q = [QUOTE]"
  by (cases q) auto

lemma ws_not_plain: "is_ws c \<Longrightarrow> \<not> plain c"
  by (simp add: plain_def)

text \<open>
  On the rest of a header line, quoted or not, whose destination path has neither white
  space nor a quote in it, every match of \<open>fileRegex\<close> captures the destination path.
\<close>

lemma file_match_path:
  assumes hdr: "hdr = js '' a/'' @ Q @ js '' b/'' @ P \<or> hdr = js '' \"a/'' @ Q @ js ''\" \"b/'' @ P @ [QUOTE]"
    and P: "P \<noteq> []" "\<forall>c \<in> set P. plain c"
    and m: "hdr = pre @ w @ q @ js ''b/'' @ X @ js ''.json'' @ q' @ w'"
    and w: "w \<noteq> []" "\<forall>c \<in> set w. is_ws c"
    and q: "length q \<le> 1" "\<forall>c \<in> set q. c = QUOTE"
    and X: "\<forall>c \<in> set X. c \<noteq> QUOTE \<and> \<not> is_ws c"
    and q': "length q' \<le> 1" "\<forall>c \<in> set q'. c = QUOTE"
    and w': "\<forall>c \<in> set w'. is_ws c"
  shows "X @ js ''.json'' = P"
proof -
  define Z where "Z = X @ js ''.json''"
  have Zp: "\<forall>c \<in> set (js ''b/'' @ Z). plain c"
    using X json_plain by (auto simp: Z_def plain_def)
  have Pp: "\<forall>c \<in> set (js ''b/'' @ P). plain c"
    using P(2) json_plain(2) by auto
  have Zne: "Z \<noteq> []" by (simp add: Z_def js_def)
  have lastZ: "plain (last Z)" using Zp Zne by (metis Un_iff last_in_set set_append)
  have m': "hdr = pre @ w @ q @ js ''b/'' @ Z @ q' @ w'" using m by (simp add: Z_def)
  \<comment> \<open>the character before \<open>b/\<close> in the match is white space or a quote\<close>
  have before: "\<exists>A c. pre @ w @ q = A @ [c] \<and> \<not> plain c"
  proof (cases "q = []")
    case True
    then have "pre @ w @ q = (pre @ butlast w) @ [last w]" using w(1) by simp
    moreover have "\<not> plain (last w)" using w by (simp add: ws_not_plain)
    ultimately show ?thesis by blast
  next
    case False
    then have "q = [QUOTE]" using quote_list[OF q] by simp
    then have "pre @ w @ q = (pre @ w) @ [QUOTE]" by simp
    moreover have "\<not> plain QUOTE" by (simp add: plain_def)
    ultimately show ?thesis by blast
  qed
  then obtain A c where A: "pre @ w @ q = A @ [c]" "\<not> plain c" by blast
  from hdr show ?thesis
  proof
    assume u: "hdr = js '' a/'' @ Q @ js '' b/'' @ P"
    then have lastP: "last hdr = last P" using P(1) by simp
    have w'e: "w' = []"
    proof (rule ccontr)
      assume "w' \<noteq> []"
      then have "last hdr = last w'" using m' by simp
      then have "\<not> plain (last hdr)" using w' \<open>w' \<noteq> []\<close> by (simp add: ws_not_plain)
      then show False using lastP P by simp
    qed
    have q'e: "q' = []"
    proof (rule ccontr)
      assume "q' \<noteq> []"
      then have "q' = [QUOTE]" using quote_list[OF q'] by simp
      then have "last hdr = QUOTE" using m' w'e by simp
      then show False using lastP P by (metis last_in_set plain_def)
    qed
    have 1: "hdr = A @ [c] @ (js ''b/'' @ Z)"
      using m' w'e q'e A(1) by (metis append.assoc append_Nil2)
    have 2: "hdr = (js '' a/'' @ Q) @ [0x20] @ (js ''b/'' @ P)"
      using u by (simp add: js_def)
    have "\<not> plain 0x20" by (simp add: plain_def is_ws_def)
    from plain_suffix_unique[OF 1 A(2) Zp 2 this Pp] show ?thesis by (simp add: Z_def)
  next
    assume u: "hdr = js '' \"a/'' @ Q @ js ''\" \"b/'' @ P @ [QUOTE]"
    then have lastq: "last hdr = QUOTE" by simp
    have w'e: "w' = []"
    proof (rule ccontr)
      assume "w' \<noteq> []"
      then have "last hdr = last w'" using m' by simp
      then have "is_ws (last hdr)" using w' \<open>w' \<noteq> []\<close> by simp
      then show False using lastq by (simp add: is_ws_def)
    qed
    have q'e: "q' = [QUOTE]"
    proof (rule ccontr)
      assume "q' \<noteq> [QUOTE]"
      then have "q' = []" using quote_list[OF q'] by simp
      then have "last hdr = last Z" using m' w'e Zne by simp
      then show False using lastq lastZ by (simp add: plain_def)
    qed
    have "hdr = (A @ [c] @ (js ''b/'' @ Z)) @ [QUOTE]"
      using m' w'e q'e A(1) by (metis append.assoc append_Nil2)
    moreover have "hdr = ((js '' \"a/'' @ Q @ js ''\" '') @ [QUOTE] @ (js ''b/'' @ P)) @ [QUOTE]"
      using u by (simp add: js_def)
    ultimately have 1: "A @ [c] @ (js ''b/'' @ Z) = (js '' \"a/'' @ Q @ js ''\" '') @ [QUOTE] @ (js ''b/'' @ P)"
      by simp
    have "\<not> plain QUOTE" by (simp add: plain_def)
    from plain_suffix_unique[OF refl A(2) Zp 1 this Pp] show ?thesis by (simp add: Z_def)
  qed
qed


lemma file_run_complete:
  assumes w: "w \<noteq> []" "\<forall>c \<in> set w. is_ws c" and q: "length q \<le> 1" "\<forall>c \<in> set q. c = QUOTE"
    and X: "X \<noteq> []" "\<forall>c \<in> set X. c \<noteq> QUOTE \<and> \<not> is_ws c"
    and q': "length q' \<le> 1" "\<forall>c \<in> set q'. c = QUOTE" and w': "\<forall>c \<in> set w'. is_ws c"
  shows "(cursor_after p (w @ q @ js ''b/'' @ X @ js ''.json'' @ q' @ w'), [], [(1, X @ js ''.json'')])
     \<in> set (run False fileRegex (p, w @ q @ js ''b/'' @ X @ js ''.json'' @ q' @ w', []))"
proof -
  let ?j = "js ''.json''" and ?b = "js ''b/''"
  have s1: "(cursor_after p w, q @ ?b @ X @ ?j @ q' @ w', [])
      \<in> set (run False (Plus Ws) (p, w @ q @ ?b @ X @ ?j @ q' @ w', []))"
    by (rule run_RepI) (use w in \<open>auto simp: Suc_le_eq\<close>)
  have s2: "(cursor_after (cursor_after p w) q, ?b @ X @ ?j @ q' @ w', [])
      \<in> set (run False (Opt (Ch QUOTE)) (cursor_after p w, q @ ?b @ X @ ?j @ q' @ w', []))"
    by (rule run_RepI) (use q in auto)
  have s3: "(cursor_after (cursor_after p (w @ q)) ?b, X @ ?j @ q' @ w', [])
      \<in> set (run False (Lit ?b) (cursor_after p (w @ q), ?b @ X @ ?j @ q' @ w', []))"
    by (rule run_LitI)
  have s4a: "(cursor_after (cursor_after p (w @ q @ ?b)) X, ?j @ q' @ w', [])
      \<in> set (run False (Plus (Neg (Or (Ch QUOTE) Ws))) (cursor_after p (w @ q @ ?b), X @ ?j @ q' @ w', []))"
    by (rule run_RepI) (use X in \<open>auto simp: Suc_le_eq\<close>)
  have s4b: "(cursor_after (cursor_after p (w @ q @ ?b @ X)) ?j, q' @ w', [])
      \<in> set (run False (Lit ?j) (cursor_after p (w @ q @ ?b @ X), ?j @ q' @ w', []))"
    by (rule run_LitI)
  have s4c: "(cursor_after p (w @ q @ ?b @ X @ ?j), q' @ w', [])
      \<in> set (run False (Cat [Plus (Neg (Or (Ch QUOTE) Ws)), Lit ?j]) (cursor_after p (w @ q @ ?b), X @ ?j @ q' @ w', []))"
    using s4a s4b by (auto simp: in_run_Cat_Cons in_run_Cat_Nil)
  have s4: "(cursor_after p (w @ q @ ?b @ X @ ?j), q' @ w', [(1, X @ ?j)])
      \<in> set (run False (Grp 1 (Cat [Plus (Neg (Or (Ch QUOTE) Ws)), Lit ?j])) (cursor_after p (w @ q @ ?b), X @ ?j @ q' @ w', []))"
    unfolding in_run_Grp using s4c by simp
  have s5: "(cursor_after (cursor_after p (w @ q @ ?b @ X @ ?j)) q', w', [(1, X @ ?j)])
      \<in> set (run False (Opt (Ch QUOTE)) (cursor_after p (w @ q @ ?b @ X @ ?j), q' @ w', [(1, X @ ?j)]))"
    by (rule run_RepI) (use q' in auto)
  have "(cursor_after (cursor_after p (w @ q @ ?b @ X @ ?j @ q')) w', [], [(1, X @ ?j)])
      \<in> set (run False (Star Ws) (cursor_after p (w @ q @ ?b @ X @ ?j @ q'), w' @ [], [(1, X @ ?j)]))"
    by (rule run_RepI) (use w' in auto)
  then have s6: "(cursor_after p (w @ q @ ?b @ X @ ?j @ q' @ w'), [], [(1, X @ ?j)])
      \<in> set (run False (Star Ws) (cursor_after p (w @ q @ ?b @ X @ ?j @ q'), w', [(1, X @ ?j)]))"
    by (simp only: cursor_after_append append_assoc append_Nil2)
  have s7: "(cursor_after p (w @ q @ ?b @ X @ ?j @ q' @ w'), [], [(1, X @ ?j)])
      \<in> set (run False (Cat [Eol]) (cursor_after p (w @ q @ ?b @ X @ ?j @ q' @ w'), [], [(1, X @ ?j)]))"
    by (simp add: in_run_Cat_Cons in_run_Cat_Nil in_run_Eol)
  show ?thesis
    unfolding fileRegex_def
    apply (rule run_Cat_ConsI[OF s1])
    apply (rule run_Cat_ConsI[OF s2])
    apply (simp only: cursor_after_append append_assoc)
    apply (rule run_Cat_ConsI[OF s3])
    apply (simp only: cursor_after_append append_assoc)
    apply (rule run_Cat_ConsI[OF s4])
    apply (rule run_Cat_ConsI[OF s5])
    apply (simp only: cursor_after_append append_assoc)
    apply (rule run_Cat_ConsI[OF s6])
    apply (rule s7)
    done
qed


lemma file_exec_path:
  assumes hdr: "hdr = js '' a/'' @ Q @ js '' b/'' @ P \<or> hdr = js '' \"a/'' @ Q @ js ''\" \"b/'' @ P @ [QUOTE]"
    and P: "P = stem @ js ''.json''" "stem \<noteq> []" "\<forall>c \<in> set P. c \<noteq> QUOTE \<and> \<not> is_ws c"
  shows "\<exists>x. exec False fileRegex hdr = Some x \<and> the_group x 1 = P"
proof -
  have Pp: "P \<noteq> []" "\<forall>c \<in> set P. plain c" using P by (auto simp: plain_def)
  have stem: "\<forall>c \<in> set stem. c \<noteq> QUOTE \<and> \<not> is_ws c" using P(1,3) by auto
  have sp: "[0x20] \<noteq> []" "\<forall>c \<in> set [0x20]. is_ws c" by (simp_all add: is_ws_def)
  \<comment> \<open>the pattern matches where the white space before the destination path begins\<close>
  have "\<exists>A tail. hdr = A @ tail \<and> (\<forall>p. run False fileRegex (p, tail, []) \<noteq> [])"
  using hdr proof
    assume u: "hdr = js '' a/'' @ Q @ js '' b/'' @ P"
    have "run False fileRegex (p, [0x20] @ [] @ js ''b/'' @ stem @ js ''.json'' @ [] @ [], []) \<noteq> []" for p
      using file_run_complete[OF sp _ _ P(2) stem, of "[]" "[]" "[]" p] by auto
    moreover have "hdr = (js '' a/'' @ Q) @ ([0x20] @ [] @ js ''b/'' @ stem @ js ''.json'' @ [] @ [])"
      using u P(1) by (simp add: js_def)
    ultimately show ?thesis by blast
  next
    assume u: "hdr = js '' \"a/'' @ Q @ js ''\" \"b/'' @ P @ [QUOTE]"
    have "run False fileRegex (p, [0x20] @ [QUOTE] @ js ''b/'' @ stem @ js ''.json'' @ [QUOTE] @ [], []) \<noteq> []" for p
      using file_run_complete[OF sp _ _ P(2) stem, of "[QUOTE]" "[QUOTE]" "[]" p] by auto
    moreover have "hdr = (js '' \"a/'' @ Q @ [QUOTE]) @ ([0x20] @ [QUOTE] @ js ''b/'' @ stem @ js ''.json'' @ [QUOTE] @ [])"
      using u P(1) by (simp add: js_def)
    ultimately show ?thesis by blast
  qed
  then obtain A tail where A: "hdr = A @ tail" "\<And>p. run False fileRegex (p, tail, []) \<noteq> []" by blast
  have "exec False fileRegex hdr \<noteq> None"
  proof
    assume "exec False fileRegex hdr = None"
    then have "\<forall>k \<le> length hdr. run False fileRegex (cursor_after None (take k hdr), drop k hdr, []) = []"
      by (simp add: exec_def search_None)
    from this[rule_format, of "length A"] show False using A by simp
  qed
  then obtain x where x: "exec False fileRegex hdr = Some x" by blast
  then have "search False fileRegex 0 None hdr = Some x" by (simp add: exec_def)
  from search_Some[OF this] obtain u where u: "hdr = u @ matched x @ snd (after x)"
    "attempt False fileRegex (0 + length u) (cursor_after None u) (matched x @ snd (after x)) = Some x"
    by blast
  from attempt_Some(4,5)[OF u(2)]
  have "(fst (after x), snd (after x), groups x)
      \<in> set (run False fileRegex (cursor_after None u, matched x @ snd (after x), []))"
    by (metis hd_in_set)
  from file_run_sound[OF this] obtain w q X q' w' where
    m: "matched x @ snd (after x) = w @ q @ js ''b/'' @ X @ js ''.json'' @ q' @ w'"
    and c: "w \<noteq> []" "\<forall>c \<in> set w. is_ws c" "length q \<le> 1" "\<forall>c \<in> set q. c = QUOTE"
      "\<forall>c \<in> set X. c \<noteq> QUOTE \<and> \<not> is_ws c" "length q' \<le> 1" "\<forall>c \<in> set q'. c = QUOTE"
      "\<forall>c \<in> set w'. is_ws c"
    and g: "groups x = [(1, X @ js ''.json'')]"
    by (elim exE conjE) (rule that; assumption)
  have "hdr = u @ w @ q @ js ''b/'' @ X @ js ''.json'' @ q' @ w'" using u(1) m by simp
  from file_match_path[OF hdr Pp this c] have "X @ js ''.json'' = P" .
  then have "the_group x 1 = P" using g by (simp add: the_group_def group_def)
  with x show ?thesis by blast
qed



text \<open>A path that is only \<open>.json\<close> is not taken either.\<close>

lemma section_with_bare_extension_skipped:
  "parseTranslationChangesFromDiff
     (Text (js ''diff --git a/.json b/.json'' @ [LF] @ js ''+\"k\": \"v\"'')) None = Inr []"
  by (simp add: eval_parse eval_re)




section \<open>The claims about the nested-key lookup\<close>

text \<open>
  C6. The claim says that the lookup returns \<open>undefined\<close> as soon as the key, or a segment
  of it, is missing from the mapping, as the test \<open>should return undefined for
  non-existent key\<close> does. The code reads the mapping with \<open>obj[key]\<close> and \<open>part in
  current\<close>, which also find what every object inherits from \<open>Object.prototype\<close>. For
  the key \<open>__proto__\<close>, which the empty mapping does not have, the code returns the
  serialization of \<open>Object.prototype\<close>:
\<close>

theorem getNestedValue_finds_inherited_property:
  "getNestedValue (Some []) (js ''__proto__'') = Some (js ''{}'')"
  by (simp add: getNestedValue_def prototype_get_def js_def)

text \<open>
  For every other key the lookup is as the claim says. \<open>reaches_own t parts w\<close>:
  descending from \<open>t\<close> along \<open>parts\<close> through the entries of the mapping ends at \<open>w\<close>.
\<close>

inductive reaches_own :: "tree \<Rightarrow> jsstring list \<Rightarrow> tree \<Rightarrow> bool" where
  own_here: "reaches_own t [] t"
| own_step: "map_of kvs part = Some t' \<Longrightarrow> reaches_own t' parts w \<Longrightarrow> reaches_own (Node kvs) (part # parts) w"

fun text_of :: "tree \<Rightarrow> jsstring" where
  "text_of (Leaf s) = s"
| "text_of (Node kvs) = stringify_tree (Node kvs)"

lemma as_text_Val: "as_text (Val t) = Some (text_of t)"
  by (cases t) simp_all

lemma descend_own: "reaches_own t parts w \<Longrightarrow> descend parts (Val t) = Some (text_of w)"
  by (induction rule: reaches_own.induct) (simp_all add: as_text_Val)

lemma descend_Function: "parts \<noteq> [] \<Longrightarrow> descend parts Function = None"
  by (cases parts) simp_all

lemma descend_not_own:
  "js ''__proto__'' \<notin> set parts \<Longrightarrow> \<not> (\<exists>w. reaches_own t parts w) \<Longrightarrow> descend parts (Val t) = None"
proof (induction parts arbitrary: t)
  case Nil
  then show ?case using own_here by blast
next
  case (Cons part parts)
  show ?case
  proof (cases t)
    case (Leaf s)
    then show ?thesis by simp
  next
    case (Node kvs)
    show ?thesis
    proof (cases "map_of kvs part")
      case (Some t')
      have "\<not> (\<exists>w. reaches_own t' parts w)"
        using Cons.prems(2) Node Some own_step by blast
      with Cons.IH[of t'] Cons.prems(1) have "descend parts (Val t') = None" by simp
      then show ?thesis using Node Some by simp
    next
      case None
      have "part \<noteq> js ''__proto__''" using Cons.prems(1) by auto
      then show ?thesis using Node None
        by (cases parts) (auto simp: prototype_get_def)
    qed
  qed
qed

lemma inherited_no_dot: "k \<in> set inherited_functions \<Longrightarrow> split_on (of_char CHR ''.'') k = [k]"
  by (auto simp: inherited_functions_def js_def)

lemma getNestedValue_own_keys:
  assumes "js ''__proto__'' \<notin> set (split_on (of_char CHR ''.'') k)"
  shows "getNestedValue None k = None
    \<and> (\<forall>t. map_of kvs k = Some t \<longrightarrow> getNestedValue (Some kvs) k = Some (text_of t))
    \<and> (map_of kvs k = None \<longrightarrow>
         (\<forall>w. reaches_own (Node kvs) (split_on (of_char CHR ''.'') k) w
                \<longrightarrow> getNestedValue (Some kvs) k = Some (text_of w))
         \<and> ((\<nexists>w. reaches_own (Node kvs) (split_on (of_char CHR ''.'') k) w)
                \<longrightarrow> getNestedValue (Some kvs) k = None))"
proof (intro conjI allI impI)
  show "getNestedValue None k = None" by (simp add: getNestedValue_def)
next
  fix t assume "map_of kvs k = Some t"
  then show "getNestedValue (Some kvs) k = Some (text_of t)"
    by (simp add: getNestedValue_def as_text_Val)
next
  have np: "k \<noteq> js ''__proto__''"
  proof
    assume "k = js ''__proto__''"
    then have "split_on (of_char CHR ''.'') k = [k]" by (simp add: js_def)
    with assms \<open>k = js ''__proto__''\<close> show False by simp
  qed
  {
    fix w
    assume n: "map_of kvs k = None" and w: "reaches_own (Node kvs) (split_on (of_char CHR ''.'') k) w"
    have "k \<notin> set inherited_functions"
    proof
      assume "k \<in> set inherited_functions"
      then have "split_on (of_char CHR ''.'') k = [k]" by (rule inherited_no_dot)
      with w have "reaches_own (Node kvs) [k] w" by simp
      then show False using n by (cases rule: reaches_own.cases) auto
    qed
    then have "get (Val (Node kvs)) k = None" using n np by (simp add: prototype_get_def)
    then show "getNestedValue (Some kvs) k = Some (text_of w)"
      using descend_own[OF w] by (simp add: getNestedValue_def)
  }
  {
    assume n: "map_of kvs k = None" and w: "\<nexists>w. reaches_own (Node kvs) (split_on (of_char CHR ''.'') k) w"
    show "getNestedValue (Some kvs) k = None"
    proof (cases "k \<in> set inherited_functions")
      case True
      then show ?thesis using n np by (simp add: getNestedValue_def prototype_get_def)
    next
      case False
      then have "get (Val (Node kvs)) k = None" using n np by (simp add: prototype_get_def)
      then show ?thesis using descend_not_own[OF assms w] by (simp add: getNestedValue_def)
    qed
  }
qed


end
